theory Spec2Isabelle
  imports Main "HOL-Library.AList"
begin

section \<open>Strings\<close>

text \<open>
  A Python \<open>str\<close> is modelled as a \<open>string\<close>, one \<open>char\<close> per code point, for the
  code points 0 to 255. The character classes of \<open>re\<close> (\<open>\\d\<close>, \<open>\\s\<close>, \<open>\\w\<close>) and of
  \<open>str.strip\<close> and \<open>str.lower\<close> are the ones Python 3 gives on that range. The emoji of
  the fixed response texts lie outside the range; they are written as their UTF-8
  bytes and are never inspected by the program.
\<close>

definition code :: "char \<Rightarrow> nat" where
  "code c = of_char c"

definition is_digit :: "char \<Rightarrow> bool" where
  "is_digit c = (48 \<le> code c \<and> code c \<le> 57)"

definition is_space :: "char \<Rightarrow> bool" where
  "is_space c = ((9 \<le> code c \<and> code c \<le> 13) \<or> (28 \<le> code c \<and> code c \<le> 32)
     \<or> code c = 133 \<or> code c = 160)"

definition is_word :: "char \<Rightarrow> bool" where
  "is_word c = (let n = code c in
     (48 \<le> n \<and> n \<le> 57) \<or> (65 \<le> n \<and> n \<le> 90) \<or> n = 95 \<or> (97 \<le> n \<and> n \<le> 122)
     \<or> n = 170 \<or> n = 178 \<or> n = 179 \<or> n = 181 \<or> n = 185 \<or> n = 186
     \<or> (188 \<le> n \<and> n \<le> 190) \<or> (192 \<le> n \<and> n \<le> 214) \<or> (216 \<le> n \<and> n \<le> 246)
     \<or> 248 \<le> n)"

definition lower_char :: "char \<Rightarrow> char" where
  "lower_char c = (let n = code c in
     if (65 \<le> n \<and> n \<le> 90) \<or> (192 \<le> n \<and> n \<le> 214) \<or> (216 \<le> n \<and> n \<le> 222)
     then char_of (n + 32) else c)"

definition lower :: "string \<Rightarrow> string" where
  "lower s = map lower_char s"

definition strip :: "string \<Rightarrow> string" where
  "strip s = rev (dropWhile is_space (rev (dropWhile is_space s)))"

definition startswith :: "string \<Rightarrow> string \<Rightarrow> bool" where
  "startswith s p = (take (length p) s = p)"

text \<open>\<open>sep.join(xs)\<close>.\<close>

fun join :: "string \<Rightarrow> string list \<Rightarrow> string" where
  "join sep [] = []"
| "join sep [x] = x"
| "join sep (x # y # ys) = x @ sep @ join sep (y # ys)"

text \<open>\<open>xs[-n:]\<close> for a positive \<open>n\<close>.\<close>

definition last_n :: "nat \<Rightarrow> 'a list \<Rightarrow> 'a list" where
  "last_n n xs = drop (length xs - n) xs"

section \<open>Regular expressions of the redactor\<close>

text \<open>
  The patterns of \<open>phone_patterns\<close> and of the catch-all rule are sequences of greedy
  bounded repetitions of one character class, and of the anchor \<open>\\b\<close>. \<open>X\<close> is
  \<open>X{1,1}\<close> and \<open>X?\<close> is \<open>X{0,1}\<close>.
\<close>

datatype cclass = Digit | Space | Sep | Lit char

fun in_class :: "cclass \<Rightarrow> char \<Rightarrow> bool" where
  "in_class Digit c = is_digit c"
| "in_class Space c = is_space c"
| "in_class Sep c = (c = CHR ''-'' \<or> c = CHR ''.'' \<or> is_space c)"
| "in_class (Lit a) c = (c = a)"

datatype item = Rep cclass nat "nat option" | WordB

type_synonym pattern = "item list"

abbreviation One :: "cclass \<Rightarrow> item" where
  "One c \<equiv> Rep c 1 (Some 1)"

abbreviation Opt :: "cclass \<Rightarrow> item" where
  "Opt c \<equiv> Rep c 0 (Some 1)"

abbreviation Exactly :: "nat \<Rightarrow> cclass \<Rightarrow> item" where
  "Exactly n c \<equiv> Rep c n (Some n)"

abbreviation AtLeast :: "nat \<Rightarrow> cclass \<Rightarrow> item" where
  "AtLeast n c \<equiv> Rep c n None"

definition is_word_opt :: "char option \<Rightarrow> bool" where
  "is_word_opt p = (case p of None \<Rightarrow> False | Some c \<Rightarrow> is_word c)"

text \<open>\<open>\\b\<close>: exactly one of the characters before and after the position is a word
  character; the ends of the text count as non-word.\<close>

definition at_boundary :: "char option \<Rightarrow> string \<Rightarrow> bool" where
  "at_boundary prev s = (is_word_opt prev \<noteq> (case s of [] \<Rightarrow> False | c # _ \<Rightarrow> is_word c))"

text \<open>
  The backtracking matcher of \<open>re\<close>: \<open>match_here p prev s\<close> tries the pattern at the
  start of \<open>s\<close>, where \<open>prev\<close> is the character before it, and returns the number of
  characters of the first successful alternative: a repetition first takes one more
  character when it can, and gives it back when the rest of the pattern fails.
\<close>

fun match_here :: "pattern \<Rightarrow> char option \<Rightarrow> string \<Rightarrow> nat option" where
  "match_here [] prev s = Some 0"
| "match_here (WordB # r) prev s =
     (if at_boundary prev s then match_here r prev s else None)"
| "match_here (Rep c lo hi # r) prev [] =
     (if lo = 0 then match_here r prev [] else None)"
| "match_here (Rep c lo hi # r) prev (x # xs) =
     (if in_class c x \<and> hi \<noteq> Some 0 then
        (case match_here (Rep c (lo - 1) (map_option (\<lambda>h. h - 1) hi) # r) (Some x) xs of
           Some n \<Rightarrow> Some (Suc n)
         | None \<Rightarrow> if lo = 0 then match_here r prev (x # xs) else None)
      else if lo = 0 then match_here r prev (x # xs) else None)"

definition hidden :: string where
  "hidden = ''[hidden]''"

text \<open>
  \<open>re.sub(pattern, '[hidden]', text)\<close>: the leftmost match is replaced and the scan goes
  on behind it; where the pattern does not match, the character is copied. An empty
  match puts the replacement in front of the character.
\<close>

function sub_from :: "pattern \<Rightarrow> char option \<Rightarrow> string \<Rightarrow> string" where
  "sub_from p prev [] = (case match_here p prev [] of None \<Rightarrow> [] | Some _ \<Rightarrow> hidden)"
| "sub_from p prev (c # cs) =
     (case match_here p prev (c # cs) of
        None \<Rightarrow> c # sub_from p (Some c) cs
      | Some 0 \<Rightarrow> hidden @ c # sub_from p (Some c) cs
      | Some (Suc n) \<Rightarrow> hidden @ sub_from p (Some ((c # cs) ! n)) (drop n cs))"
  by pat_completeness auto
termination
  by (relation "measure (\<lambda>(p, prev, s). length s)") auto

definition re_sub :: "pattern \<Rightarrow> string \<Rightarrow> string" where
  "re_sub p text = sub_from p None text"

section \<open>The redactor\<close>

definition phone_patterns :: "pattern list" where
  "phone_patterns =
    [ [Opt (Lit CHR ''+''), Rep Digit 1 (Some 4), Opt Sep, AtLeast 10 Digit],
      [AtLeast 10 Digit],
      [One (Lit CHR ''(''), Exactly 3 Digit, One (Lit CHR '')''), Opt Space, Exactly 3 Digit,
         Opt (Lit CHR ''-''), Exactly 4 Digit],
      [Exactly 3 Digit, Opt Sep, Exactly 3 Digit, Opt Sep, Exactly 4 Digit],
      [One (Lit CHR ''+''), One (Lit CHR ''9''), One (Lit CHR ''1''), Opt Sep, Exactly 10 Digit],
      [One (Lit CHR ''9''), One (Lit CHR ''1''), Opt Sep, Exactly 10 Digit],
      [Exactly 5 Digit, Opt Sep, Exactly 5 Digit],
      [Exactly 4 Digit, Opt Sep, Exactly 3 Digit, Opt Sep, Exactly 3 Digit],
      [Exactly 2 Digit, Opt Sep, Exactly 4 Digit, Opt Sep, Exactly 4 Digit] ]"

definition catch_all :: pattern where
  "catch_all = [WordB, AtLeast 8 Digit, WordB]"

definition mask_phone_numbers :: "string \<Rightarrow> string" where
  "mask_phone_numbers text =
     (if text = [] then text
      else re_sub catch_all (fold re_sub phone_patterns text))"

section \<open>The store\<close>

text \<open>
  \<open>UserState\<close> and the attributes of \<open>RandomConnectManager\<close>. \<open>user_states\<close> is an
  association list in insertion order, as the dictionary is iterated by the reaper; the
  other dictionaries are maps. Time is an integer number of microseconds. The values of
  \<open>datetime.now()\<close> and of \<open>uuid.uuid4()\<close> are inputs of a request.
\<close>

record UserState =
  user_id :: string
  nickname :: string
  phone_masking_enabled :: bool
  partner_id :: "string option"
  partner_session_id :: "string option"
  last_activity :: int

record manager =
  available_users :: "string list"
  available_set :: "string set"
  active_pairs :: "string \<rightharpoonup> string"
  user_states :: "(string \<times> UserState) list"
  pending_notifications :: "string \<rightharpoonup> string list"
  pending_messages :: "string \<rightharpoonup> string list"
  strict_mode :: bool

record env =
  t_entry :: int
  t_hide :: int
  uuid4 :: string

definition init_manager :: manager where
  "init_manager = \<lparr> available_users = [], available_set = {}, active_pairs = Map.empty,
     user_states = [], pending_notifications = Map.empty, pending_messages = Map.empty,
     strict_mode = True \<rparr>"

text \<open>Truth value of an \<open>Optional[str]\<close>: \<open>None\<close> and the empty string are false.\<close>

definition truthy :: "string option \<Rightarrow> bool" where
  "truthy x = (case x of None \<Rightarrow> False | Some v \<Rightarrow> v \<noteq> [])"

text \<open>An \<open>Optional[str]\<close> inside an f-string.\<close>

definition str_opt :: "string option \<Rightarrow> string" where
  "str_opt x = (case x of None \<Rightarrow> ''None'' | Some v \<Rightarrow> v)"

text \<open>\<open>d.get(k, [])\<close> and \<open>d.pop(k, [])\<close> on a dictionary of lists.\<close>

definition get_list :: "(string \<rightharpoonup> 'a list) \<Rightarrow> string \<Rightarrow> 'a list" where
  "get_list d k = (case d k of None \<Rightarrow> [] | Some xs \<Rightarrow> xs)"

definition new_user :: "string \<Rightarrow> string option \<Rightarrow> int \<Rightarrow> UserState" where
  "new_user uid nick now =
     \<lparr> user_id = uid,
       nickname = (if truthy nick then str_opt nick else ''User_'' @ take 8 uid),
       phone_masking_enabled = True, partner_id = None, partner_session_id = None,
       last_activity = now \<rparr>"

definition get_or_create_user_state ::
  "manager \<Rightarrow> string \<Rightarrow> string option \<Rightarrow> int \<Rightarrow> UserState \<times> manager" where
  "get_or_create_user_state s uid nick now =
     (let st0 = (case map_of (user_states s) uid of
                   None \<Rightarrow> new_user uid nick now
                 | Some st \<Rightarrow> st);
          st = st0\<lparr>last_activity := now\<rparr>
      in (st, s\<lparr>user_states := AList.update uid st (user_states s)\<rparr>))"

subsection \<open>The waiting queue\<close>

definition queue_add :: "string \<Rightarrow> manager \<Rightarrow> manager" where
  "queue_add uid s =
     (if uid \<notin> available_set s
      then s\<lparr>available_users := available_users s @ [uid],
             available_set := insert uid (available_set s)\<rparr>
      else s)"

definition queue_remove :: "string \<Rightarrow> manager \<Rightarrow> manager" where
  "queue_remove uid s =
     (if uid \<in> available_set s
      then s\<lparr>available_set := available_set s - {uid},
             available_users :=
               (case available_users s of
                  [] \<Rightarrow> filter (\<lambda>u. u \<noteq> uid) []
                | h # t \<Rightarrow> if h = uid then t else filter (\<lambda>u. u \<noteq> uid) (h # t))\<rparr>
      else s)"

text \<open>The loop of \<open>find_partner\<close>: heads are popped until one is in \<open>available_set\<close>.\<close>

fun drain :: "string list \<Rightarrow> string set \<Rightarrow> string option \<times> string list \<times> string set" where
  "drain [] S = (None, [], S)"
| "drain (candidate # q) S =
     (if candidate \<in> S then (Some candidate, q, S - {candidate}) else drain q S)"

subsection \<open>Pairing\<close>

text \<open>The update of one profile, done only \<open>if uid in self.user_states\<close>.\<close>

definition set_partner ::
  "string \<Rightarrow> string option \<Rightarrow> string option \<Rightarrow> (string \<times> UserState) list
     \<Rightarrow> (string \<times> UserState) list" where
  "set_partner uid p sid us =
     (case map_of us uid of
        None \<Rightarrow> us
      | Some st \<Rightarrow> AList.update uid (st\<lparr>partner_id := p, partner_session_id := sid\<rparr>) us)"

definition notify :: "string \<Rightarrow> string \<Rightarrow> (string \<rightharpoonup> string list) \<Rightarrow> (string \<rightharpoonup> string list)" where
  "notify uid note d = d(uid \<mapsto> get_list d uid @ [note])"

definition emoji_party :: string where
  "emoji_party = [CHR 0xF0, CHR 0x9F, CHR 0x8E, CHR 0x89]"

definition connected_note :: "string \<Rightarrow> string" where
  "connected_note me_nick =
     emoji_party @ '' Connected! You're now chatting with '' @ me_nick
       @ ''. Use #R to send and #M to check messages.''"

definition partner_left_note :: string where
  "partner_left_note = ''Your partner left the chat. Use #meet to find a new one.''"

definition find_partner :: "manager \<Rightarrow> string \<Rightarrow> string \<Rightarrow> string option \<times> manager" where
  "find_partner s0 uid session_id =
     (let s = queue_remove uid s0 in
      if available_users s = [] then (None, queue_add uid s)
      else
        (case drain (available_users s) (available_set s) of
           (None, q, S) \<Rightarrow>
             (None, queue_add uid (s\<lparr>available_users := q, available_set := S\<rparr>))
         | (Some partner, q, S) \<Rightarrow>
             (let pairs = ((active_pairs s)(uid \<mapsto> partner))(partner \<mapsto> uid);
                  us = set_partner partner (Some uid) (Some session_id)
                         (set_partner uid (Some partner) (Some session_id) (user_states s));
                  me_nick = (case map_of us uid of
                               Some st \<Rightarrow> nickname st
                             | None \<Rightarrow> ''Partner'')
              in (Some partner,
                  s\<lparr>available_users := q, available_set := S, active_pairs := pairs,
                    user_states := us,
                    pending_notifications :=
                      notify partner (connected_note me_nick) (pending_notifications s)\<rparr>))))"

definition end_chat :: "manager \<Rightarrow> string \<Rightarrow> string option \<times> manager" where
  "end_chat s uid =
     (case active_pairs s uid of
        None \<Rightarrow> (None, queue_remove uid s)
      | Some partner \<Rightarrow>
          if partner = [] then (None, queue_remove uid s)
          else
            (Some partner,
             s\<lparr>active_pairs := ((active_pairs s)(uid := None))(partner := None),
               user_states := set_partner partner None None
                                (set_partner uid None None (user_states s)),
               pending_notifications :=
                 notify partner partner_left_note (pending_notifications s)\<rparr>))"

definition get_partner :: "manager \<Rightarrow> string \<Rightarrow> string option" where
  "get_partner s uid = active_pairs s uid"

definition toggle_phone_masking :: "manager \<Rightarrow> string \<Rightarrow> int \<Rightarrow> bool \<times> manager" where
  "toggle_phone_masking s uid now =
     (case get_or_create_user_state s uid None now of
        (st, s1) \<Rightarrow>
          (let st' = st\<lparr>phone_masking_enabled := \<not> phone_masking_enabled st\<rparr>
           in (phone_masking_enabled st',
               s1\<lparr>user_states := AList.update uid st' (user_states s1)\<rparr>)))"

definition get_partner_nickname :: "manager \<Rightarrow> string \<Rightarrow> string option" where
  "get_partner_nickname s uid =
     (case get_partner s uid of
        None \<Rightarrow> None
      | Some partner \<Rightarrow>
          if partner = [] then None
          else map_option nickname (map_of (user_states s) partner))"

subsection \<open>Command handlers\<close>

definition emoji_wave :: string where
  "emoji_wave = [CHR 0xF0, CHR 0x9F, CHR 0x91, CHR 0x8B]"

definition emoji_search :: string where
  "emoji_search = [CHR 0xF0, CHR 0x9F, CHR 0x94, CHR 0x8D]"

definition emoji_again :: string where
  "emoji_again = [CHR 0xF0, CHR 0x9F, CHR 0x94, CHR 0x84]"

definition emoji_lock :: string where
  "emoji_lock = [CHR 0xF0, CHR 0x9F, CHR 0x94, CHR 0x92]"

definition emoji_person :: string where
  "emoji_person = [CHR 0xF0, CHR 0x9F, CHR 0x91, CHR 0xA4]"

definition emoji_mailbox :: string where
  "emoji_mailbox = [CHR 0xF0, CHR 0x9F, CHR 0x93, CHR 0xAD]"

definition emoji_info :: string where
  "emoji_info = [CHR 0xE2, CHR 0x84, CHR 0xB9, CHR 0xEF, CHR 0xB8, CHR 0x8F]"

definition emoji_speech :: string where
  "emoji_speech = [CHR 0xF0, CHR 0x9F, CHR 0x92, CHR 0xAC]"

definition emoji_outbox :: string where
  "emoji_outbox = [CHR 0xF0, CHR 0x9F, CHR 0x93, CHR 0xA4]"

definition newline :: string where
  "newline = [CHR 0x0A]"

definition handle_meet_command :: "manager \<Rightarrow> string \<Rightarrow> string \<Rightarrow> string \<times> manager" where
  "handle_meet_command s uid session_id =
     (if truthy (get_partner s uid)
      then (''You're already in a chat! Use #bye to end it first, or #again to find a new partner.'', s)
      else
        (case find_partner s uid session_id of
           (partner, s') \<Rightarrow>
             if truthy partner
             then (emoji_party @ '' Connected! You're now chatting with ''
                     @ str_opt (get_partner_nickname s' uid) @ ''. Say hello!'', s')
             else (emoji_search
                     @ '' Looking for someone to chat with... Please wait while we find you a partner!'',
                   s')))"

definition handle_bye_command :: "manager \<Rightarrow> string \<Rightarrow> string \<times> manager" where
  "handle_bye_command s uid =
     (case end_chat s uid of
        (partner, s') \<Rightarrow>
          if truthy partner
          then (emoji_wave @ '' Chat ended. Use #meet to connect with someone new!'', s')
          else (''You're not currently in a chat.'', s'))"

definition handle_again_command :: "manager \<Rightarrow> string \<Rightarrow> string \<Rightarrow> string \<times> manager" where
  "handle_again_command s uid session_id =
     (case end_chat s uid of
        (partner, s1) \<Rightarrow>
          (case find_partner s1 uid session_id of
             (new_partner, s2) \<Rightarrow>
               if truthy new_partner
               then (emoji_again @ '' New connection! You're now chatting with ''
                       @ str_opt (get_partner_nickname s2 uid) @ ''. Say hello!'', s2)
               else (emoji_search @ '' Looking for a new chat partner... Please wait!'', s2)))"

definition handle_hide_command :: "manager \<Rightarrow> string \<Rightarrow> int \<Rightarrow> string \<times> manager" where
  "handle_hide_command s uid now =
     (case toggle_phone_masking s uid now of
        (masking_enabled, s') \<Rightarrow>
          (emoji_lock @ '' Phone number masking is now ''
             @ (if masking_enabled then ''ON'' else ''OFF'') @ ''.'', s'))"

definition handle_who_command :: "manager \<Rightarrow> string \<Rightarrow> string \<times> manager" where
  "handle_who_command s uid =
     (let partner_nickname = get_partner_nickname s uid in
      if truthy partner_nickname
      then (emoji_person @ '' You're chatting with: '' @ str_opt partner_nickname, s)
      else (''You're not currently in a chat. Use #meet to connect!'', s))"

definition handle_inbox_command :: "manager \<Rightarrow> string \<Rightarrow> string \<times> manager" where
  "handle_inbox_command s uid =
     (let notifications = get_list (pending_notifications s) uid;
          messages = get_list (pending_messages s) uid;
          s' = s\<lparr>pending_notifications := (pending_notifications s)(uid := None),
                 pending_messages := (pending_messages s)(uid := None)\<rparr>
      in if notifications = [] \<and> messages = [] then (emoji_mailbox @ '' Inbox empty.'', s')
         else (join newline
                 (map (\<lambda>n. emoji_info @ '' '' @ n) (last_n 3 notifications)
                  @ map (\<lambda>m. emoji_speech @ '' Partner: '' @ m) (last_n 5 messages)),
               s'))"

definition no_partner_reply :: string where
  "no_partner_reply = ''No partner found. Use #meet to connect.''"

definition sent_reply :: "string \<Rightarrow> string \<Rightarrow> string" where
  "sent_reply user_nickname message =
     emoji_outbox @ '' Message sent to your partner from '' @ user_nickname @ '': '' @ message"

text \<open>The append to the recipient's queue, with the cap of 100.\<close>

definition enqueue_capped :: "string \<Rightarrow> string list \<Rightarrow> string list" where
  "enqueue_capped m queue =
     (let q = queue @ [m] in if length q > 100 then tl q else q)"

definition handle_message_routing :: "manager \<Rightarrow> string \<Rightarrow> string \<Rightarrow> string \<times> manager" where
  "handle_message_routing s0 uid message =
     (let notifications = get_list (pending_notifications s0) uid;
          s = s0\<lparr>pending_notifications := (pending_notifications s0)(uid := None)\<rparr>
      in if notifications \<noteq> [] then (last notifications, s)
         else
           (case get_partner s uid of
              None \<Rightarrow> (no_partner_reply, s)
            | Some partner \<Rightarrow>
                if partner = [] then (no_partner_reply, s)
                else
                  (case (map_of (user_states s) uid, map_of (user_states s) partner) of
                     (Some me, Some p) \<Rightarrow>
                       if partner_session_id me \<noteq> partner_session_id p
                       then (no_partner_reply, s)
                       else
                         (let masked_message =
                                (if phone_masking_enabled me then mask_phone_numbers message
                                 else message)
                          in (sent_reply (nickname me) message,
                              s\<lparr>pending_messages := (pending_messages s)(partner \<mapsto>
                                   enqueue_capped masked_message
                                     (get_list (pending_messages s) partner))\<rparr>))
                   | _ \<Rightarrow> (no_partner_reply, s))))"

subsection \<open>Dispatch\<close>

definition usage_reply :: string where
  "usage_reply = ''Usage: #R your message here''"

definition strict_tip :: string where
  "strict_tip = ''Use #R to send a message to your partner, and #M to check messages.''"

definition relay_content :: "string \<Rightarrow> string" where
  "relay_content message =
     (if length (strip message) > 2 then strip (drop 2 (strip message)) else [])"

definition process_message ::
  "manager \<Rightarrow> string \<Rightarrow> string \<Rightarrow> string option \<Rightarrow> env \<Rightarrow> string \<times> manager" where
  "process_message s0 uid message0 nick e =
     (case get_or_create_user_state s0 uid nick (t_entry e) of
        (user_state, s) \<Rightarrow>
          (let message = (if phone_masking_enabled user_state
                          then mask_phone_numbers message0 else message0);
               message_lower = lower (strip message)
           in if startswith message_lower ''#meet'' then handle_meet_command s uid (uuid4 e)
              else if startswith message_lower ''#bye'' then handle_bye_command s uid
              else if startswith message_lower ''#again'' then handle_again_command s uid (uuid4 e)
              else if startswith message_lower ''#hide'' then handle_hide_command s uid (t_hide e)
              else if startswith message_lower ''#who'' then handle_who_command s uid
              else if startswith message_lower ''#m'' then handle_inbox_command s uid
              else if startswith message_lower ''#r'' then
                (let content = relay_content message in
                 if content = [] then (usage_reply, s)
                 else handle_message_routing s uid content)
              else if \<not> strict_mode s then
                (case handle_message_routing s uid message of
                   (outbound, s1) \<Rightarrow>
                     (let queued = get_list (pending_messages s1) uid;
                          s2 = s1\<lparr>pending_messages := (pending_messages s1)(uid := None)\<rparr>
                      in if queued \<noteq> []
                         then (outbound @ newline @ newline
                                 @ join newline
                                     (map (\<lambda>m. emoji_speech @ '' Partner: '' @ m) (last_n 10 queued)),
                               s2)
                         else (outbound, s2)))
              else (strict_tip, s)))"

subsection \<open>The reaper\<close>

text \<open>
  \<open>cleanup_inactive_users\<close> collects the inactive users while it holds \<open>self.lock\<close>, a
  \<open>threading.Lock\<close>, and then calls \<open>end_chat\<close> for the first of them, which acquires
  the same lock again. The lock is not re-entrant, so that call never returns: the
  result is \<open>None\<close>, and the store is as it was. With no inactive user the loop body is
  not entered and the store is returned unchanged.
\<close>

definition inactive_users :: "manager \<Rightarrow> int \<Rightarrow> int \<Rightarrow> string list" where
  "inactive_users s current_time timeout_minutes =
     map fst (filter (\<lambda>(uid, st). current_time - last_activity st > timeout_minutes * 60 * 1000000)
                (user_states s))"

definition cleanup_inactive_users :: "manager \<Rightarrow> int \<Rightarrow> int \<Rightarrow> manager option" where
  "cleanup_inactive_users s current_time timeout_minutes =
     (case inactive_users s current_time timeout_minutes of
        [] \<Rightarrow> Some s
      | uid # _ \<Rightarrow> None)"

section \<open>Scenarios and stated properties\<close>

text \<open>Relaying a list of messages from one sender, with nothing in between.\<close>
fun relay_all :: "manager \<Rightarrow> string \<Rightarrow> string list \<Rightarrow> manager" where
  "relay_all s uid [] = s"
| "relay_all s uid (m # ms) = relay_all (snd (handle_message_routing s uid m)) uid ms"

text \<open>Stores and requests on which the theorems are instantiated.\<close>

definition demo_env :: env where
  "demo_env = \<lparr> t_entry = 1000, t_hide = 1001, uuid4 = ''session-2'' \<rparr>"

definition demo_alice :: UserState where
  "demo_alice = \<lparr> user_id = ''alice'', nickname = ''Alice'', phone_masking_enabled = True,
     partner_id = Some ''bob'', partner_session_id = Some ''session-1'', last_activity = 10 \<rparr>"

definition demo_bob :: UserState where
  "demo_bob = \<lparr> user_id = ''bob'', nickname = ''User_bob'', phone_masking_enabled = True,
     partner_id = Some ''alice'', partner_session_id = Some ''session-1'', last_activity = 20 \<rparr>"

definition demo_paired :: manager where
  "demo_paired = \<lparr> available_users = [], available_set = {},
     active_pairs = [''alice'' \<mapsto> ''bob'', ''bob'' \<mapsto> ''alice''],
     user_states = [(''alice'', demo_alice), (''bob'', demo_bob)],
     pending_notifications = Map.empty, pending_messages = Map.empty,
     strict_mode = True \<rparr>"

definition demo_notified :: manager where
  "demo_notified = demo_paired\<lparr>pending_notifications := [''alice'' \<mapsto> [connected_note ''User_bob'']]\<rparr>"

definition demo_messages :: "string list" where
  "demo_messages = map (\<lambda>i. replicate i CHR ''a'') [1..<102]"

definition demo_waiting :: manager where
  "demo_waiting = init_manager\<lparr>available_users := [''ann'', ''ben'', ''cat''],
     available_set := {''ann'', ''ben'', ''cat''}\<rparr>"

text \<open>Membership in the waiting queue, and the invariants the spec names.\<close>

definition waiting :: "manager \<Rightarrow> string \<Rightarrow> bool" where
  "waiting s u = (u \<in> set (available_users s) \<or> u \<in> available_set s)"

definition exclusive :: "manager \<Rightarrow> bool" where
  "exclusive s = (\<forall>u. \<not> (waiting s u \<and> active_pairs s u \<noteq> None))"

definition queue_ok :: "manager \<Rightarrow> bool" where
  "queue_ok s = (distinct (available_users s) \<and> set (available_users s) = available_set s)"

definition pair_symmetric :: "manager \<Rightarrow> bool" where
  "pair_symmetric s = (\<forall>a b. active_pairs s a = Some b \<longrightarrow> active_pairs s b = Some a)"

definition epochs_agree :: "manager \<Rightarrow> bool" where
  "epochs_agree s =
     (\<forall>a b. active_pairs s a = Some b \<longrightarrow>
        (\<exists>ua ub. map_of (user_states s) a = Some ua \<and> map_of (user_states s) b = Some ub
           \<and> partner_session_id ua = partner_session_id ub))"

definition named_partners :: "manager \<Rightarrow> bool" where
  "named_partners s = ([] \<notin> available_set s \<and> (\<forall>a b. active_pairs s a = Some b \<longrightarrow> b \<noteq> []))"

definition profiled :: "manager \<Rightarrow> bool" where
  "profiled s = (\<forall>u. u \<in> available_set s \<longrightarrow> map_of (user_states s) u \<noteq> None)"

definition store_inv :: "manager \<Rightarrow> bool" where
  "store_inv s = (queue_ok s \<and> named_partners s \<and> profiled s \<and> exclusive s
     \<and> pair_symmetric s \<and> epochs_agree s)"

text \<open>
  The stores that requests of users with non-empty identifiers, and runs of the
  reaper that return, produce from the empty store.
\<close>

inductive reachable :: "manager \<Rightarrow> bool" where
  start: "reachable init_manager"
| request: "reachable s \<Longrightarrow> uid \<noteq> [] \<Longrightarrow> reachable (snd (process_message s uid m nick e))"
| reaper: "reachable s \<Longrightarrow> cleanup_inactive_users s now timeout = Some s' \<Longrightarrow> reachable s'"

text \<open>A sequence of requests, each with its own clock readings and session identifier.\<close>

fun run :: "manager \<Rightarrow> (string \<times> string \<times> env) list \<Rightarrow> manager" where
  "run s [] = s"
| "run s ((uid, m, e) # rs) = run (snd (process_message s uid m None e)) rs"

text \<open>
  Four requests, the first from a user whose identifier is the empty string.
\<close>

definition bug_requests :: "(string \<times> string \<times> env) list" where
  "bug_requests =
     [('''', ''#meet'', \<lparr>t_entry = 1, t_hide = 1, uuid4 = ''session-1''\<rparr>),
      (''A'', ''#meet'', \<lparr>t_entry = 2, t_hide = 2, uuid4 = ''session-2''\<rparr>),
      (''A'', ''#meet'', \<lparr>t_entry = 3, t_hide = 3, uuid4 = ''session-3''\<rparr>),
      (''B'', ''#meet'', \<lparr>t_entry = 4, t_hide = 4, uuid4 = ''session-4''\<rparr>)]"


definition bug_store :: manager where
  "bug_store = run init_manager bug_requests"

text \<open>The store after the first three of them.\<close>

definition requeue_store :: manager where
  "requeue_store = run init_manager (take 3 bug_requests)"

subsection \<open>Words a pattern matches, and runs of digits\<close>

text \<open>
  \<open>accepts p w\<close>: the pattern, taken without its anchors, matches exactly the word \<open>w\<close>.
  \<open>occurs p t\<close>: some part of \<open>t\<close> is such a word.
\<close>

fun accepts :: "pattern \<Rightarrow> string \<Rightarrow> bool" where
  "accepts [] w = (w = [])"
| "accepts (WordB # r) w = accepts r w"
| "accepts (Rep c lo hi # r) w =
     (\<exists>k\<in>{lo..length w}.
        (case hi of None \<Rightarrow> True | Some h \<Rightarrow> k \<le> h)
        \<and> list_all (in_class c) (take k w) \<and> accepts r (drop k w))"

definition occurs :: "pattern \<Rightarrow> string \<Rightarrow> bool" where
  "occurs p t = (\<exists>u w v. t = u @ w @ v \<and> accepts p w)"

fun wordb_free :: "pattern \<Rightarrow> bool" where
  "wordb_free [] = True"
| "wordb_free (WordB # r) = False"
| "wordb_free (Rep c lo hi # r) = wordb_free r"

text \<open>The least number of characters a match has.\<close>

fun min_len :: "pattern \<Rightarrow> nat" where
  "min_len [] = 0"
| "min_len (WordB # r) = min_len r"
| "min_len (Rep c lo hi # r) = lo + min_len r"

text \<open>No character of the replacement text belongs to the class.\<close>

fun class_plain :: "cclass \<Rightarrow> bool" where
  "class_plain Digit = True"
| "class_plain Space = True"
| "class_plain Sep = True"
| "class_plain (Lit a) = (a \<notin> set hidden)"

fun classes_plain :: "pattern \<Rightarrow> bool" where
  "classes_plain [] = True"
| "classes_plain (WordB # r) = classes_plain r"
| "classes_plain (Rep c lo hi # r) = (class_plain c \<and> classes_plain r)"

text \<open>Some item of the pattern asks for at least one digit.\<close>

fun needs_digit :: "pattern \<Rightarrow> bool" where
  "needs_digit [] = False"
| "needs_digit (WordB # r) = needs_digit r"
| "needs_digit (Rep c lo hi # r) = ((c = Digit \<and> 0 < lo) \<or> needs_digit r)"

definition pat_ok :: "pattern \<Rightarrow> bool" where
  "pat_ok p = (wordb_free p \<and> classes_plain p \<and> 0 < min_len p)"

text \<open>\<open>masks s t\<close>: \<open>t\<close> is \<open>s\<close> with some parts replaced by the placeholder.\<close>

inductive masks :: "string \<Rightarrow> string \<Rightarrow> bool" where
  nil: "masks [] []"
| keep: "masks s t \<Longrightarrow> masks (c # s) (c # t)"
| hide: "masks s t \<Longrightarrow> masks (m @ s) (hidden @ t)"

text \<open>A run of at least \<open>k\<close> contiguous digits somewhere in the text.\<close>

fun has_digit_run :: "nat \<Rightarrow> string \<Rightarrow> bool" where
  "has_digit_run k [] = (k = 0)"
| "has_digit_run k (c # cs) =
     (k \<le> length (takeWhile is_digit (c # cs)) \<or> has_digit_run k cs)"

definition next_is_word :: "string \<Rightarrow> bool" where
  "next_is_word s = (case s of [] \<Rightarrow> False | c # _ \<Rightarrow> is_word c)"

text \<open>
  A run of at least eight digits that starts here, with no word character before it and
  none behind it; and such a run somewhere in the text.
\<close>

definition delimited_run_at :: "char option \<Rightarrow> string \<Rightarrow> bool" where
  "delimited_run_at prev s =
     (\<not> is_word_opt prev \<and> 8 \<le> length (takeWhile is_digit s)
      \<and> \<not> next_is_word (dropWhile is_digit s))"

fun has_delimited_run :: "char option \<Rightarrow> string \<Rightarrow> bool" where
  "has_delimited_run prev [] = False"
| "has_delimited_run prev (c # cs) =
     (delimited_run_at prev (c # cs) \<or> has_delimited_run (Some c) cs)"

section \<open>Verified properties\<close>

subsection \<open>Relay and dispatch\<close>


lemma routing_notified:
  assumes "pending_notifications s uid = Some ns" and "ns \<noteq> []"
  shows "handle_message_routing s uid m =
           (last ns, s\<lparr>pending_notifications := (pending_notifications s)(uid := None)\<rparr>)"
  using assms by (simp add: handle_message_routing_def get_list_def Let_def)

lemma routing_relayed:
  assumes "get_list (pending_notifications s) uid = []"
    and "active_pairs s uid = Some p" and "p \<noteq> []"
    and "map_of (user_states s) uid = Some me" and "map_of (user_states s) p = Some pst"
    and "partner_session_id me = partner_session_id pst"
  shows "handle_message_routing s uid m =
           (sent_reply (nickname me) m,
            s\<lparr>pending_notifications := (pending_notifications s)(uid := None),
              pending_messages := (pending_messages s)(p \<mapsto>
                enqueue_capped (if phone_masking_enabled me then mask_phone_numbers m else m)
                  (get_list (pending_messages s) p))\<rparr>)"
  using assms by (simp add: handle_message_routing_def get_partner_def Let_def)

lemma startswith_r:
  assumes "startswith l ''#r''"
  shows "\<not> startswith l ''#meet''" "\<not> startswith l ''#bye''" "\<not> startswith l ''#again''"
    "\<not> startswith l ''#hide''" "\<not> startswith l ''#who''" "\<not> startswith l ''#m''"
proof -
  from assms obtain l' where l: "l = CHR ''#'' # CHR ''r'' # l'"
    by (cases l; cases "tl l") (auto simp: startswith_def)
  show "\<not> startswith l ''#meet''" "\<not> startswith l ''#bye''" "\<not> startswith l ''#again''"
    "\<not> startswith l ''#hide''" "\<not> startswith l ''#who''" "\<not> startswith l ''#m''"
    by (simp_all add: l startswith_def)
qed

lemma process_message_relay:
  assumes "get_or_create_user_state s0 uid nick (t_entry e) = (me, s)"
    and "text = (if phone_masking_enabled me then mask_phone_numbers m0 else m0)"
    and "startswith (lower (strip text)) ''#r''"
  shows "process_message s0 uid m0 nick e =
           (if relay_content text = [] then (usage_reply, s)
            else handle_message_routing s uid (relay_content text))"
  using assms(1) startswith_r[OF assms(3)] assms(3)
  unfolding process_message_def assms(2) by (simp add: Let_def)

subsection \<open>The message queue of a recipient\<close>

lemma last_n_append_last_n: "last_n n (last_n n xs @ ys) = last_n n (xs @ ys)"
proof (cases "length xs \<le> n")
  case True
  then show ?thesis by (simp add: last_n_def)
next
  case False
  then have "length xs - n + n = length xs" by arith
  with False show ?thesis by (simp add: last_n_def add.commute)
qed

lemma enqueue_capped_last_n:
  assumes "length q \<le> 100"
  shows "enqueue_capped m q = last_n 100 (q @ [m])"
proof (cases "length q = 100")
  case True
  then show ?thesis by (cases q) (simp_all add: enqueue_capped_def last_n_def Let_def drop_Suc)
next
  case False
  with assms have "length q < 100" by simp
  then show ?thesis by (simp add: enqueue_capped_def last_n_def Let_def)
qed

lemma length_last_n: "length (last_n n xs) \<le> n"
  by (simp add: last_n_def)

lemma relay_all_queue:
  assumes "get_list (pending_notifications s) uid = []"
    and "active_pairs s uid = Some p" and "p \<noteq> []"
    and "map_of (user_states s) uid = Some me" and "map_of (user_states s) p = Some pst"
    and "partner_session_id me = partner_session_id pst"
    and "length (get_list (pending_messages s) p) \<le> 100"
  shows "get_list (pending_messages (relay_all s uid ms)) p =
           last_n 100 (get_list (pending_messages s) p
             @ map (\<lambda>m. if phone_masking_enabled me then mask_phone_numbers m else m) ms)"
  using assms
proof (induction ms arbitrary: s)
  case Nil
  then show ?case by (simp add: last_n_def)
next
  case (Cons m ms)
  let ?f = "\<lambda>m. if phone_masking_enabled me then mask_phone_numbers m else m"
  let ?s' = "snd (handle_message_routing s uid m)"
  have step: "?s' = s\<lparr>pending_notifications := (pending_notifications s)(uid := None),
              pending_messages := (pending_messages s)(p \<mapsto>
                enqueue_capped (?f m) (get_list (pending_messages s) p))\<rparr>"
    using routing_relayed[OF Cons.prems(1-6), of m] by simp
  have q': "get_list (pending_messages ?s') p = last_n 100 (get_list (pending_messages s) p @ [?f m])"
    using Cons.prems(7) by (simp add: step get_list_def enqueue_capped_last_n)
  have "get_list (pending_messages (relay_all ?s' uid ms)) p =
          last_n 100 (get_list (pending_messages ?s') p @ map ?f ms)"
  proof (rule Cons.IH)
    show "get_list (pending_notifications ?s') uid = []" by (simp add: step get_list_def)
    show "active_pairs ?s' uid = Some p" using Cons.prems(2) by (simp add: step)
    show "p \<noteq> []" by fact
    show "map_of (user_states ?s') uid = Some me" using Cons.prems(4) by (simp add: step)
    show "map_of (user_states ?s') p = Some pst" using Cons.prems(5) by (simp add: step)
    show "partner_session_id me = partner_session_id pst" by fact
    show "length (get_list (pending_messages ?s') p) \<le> 100"
      unfolding q' by (rule length_last_n)
  qed
  then show ?case
    by (simp add: q' last_n_append_last_n)
qed

subsection \<open>Pending notifications come first\<close>

text \<open>
  C4. When the sender of a relay request has a non-empty list of pending notifications,
  the reply is the latest of them and the only change of the store is that the sender's
  notifications are removed: nothing is appended to a message queue. This holds for the
  relay routine and for every \<open>#r\<close> command with content that reaches it through
  \<open>process_message\<close>.
\<close>

theorem notification_priority:
  assumes "pending_notifications s uid = Some ns" and "ns \<noteq> []"
  shows "handle_message_routing s uid m =
           (last ns, s\<lparr>pending_notifications := (pending_notifications s)(uid := None)\<rparr>)
       \<and> (\<forall>m0 nick (e::env).
            (let me = fst (get_or_create_user_state s uid nick (t_entry e));
                 text = (if phone_masking_enabled me then mask_phone_numbers m0 else m0)
             in startswith (lower (strip text)) ''#r'' \<longrightarrow> relay_content text \<noteq> [] \<longrightarrow>
                fst (process_message s uid m0 nick e) = last ns
                \<and> pending_messages (snd (process_message s uid m0 nick e)) = pending_messages s))"
proof (intro conjI allI)
  show "handle_message_routing s uid m =
           (last ns, s\<lparr>pending_notifications := (pending_notifications s)(uid := None)\<rparr>)"
    by (rule routing_notified[OF assms])
next
  fix m0 :: string and nick :: "string option" and e :: env
  obtain me s1 where g: "get_or_create_user_state s uid nick (t_entry e) = (me, s1)"
    by (cases "get_or_create_user_state s uid nick (t_entry e)")
  have s1: "pending_notifications s1 = pending_notifications s"
    "pending_messages s1 = pending_messages s"
    using g by (auto simp: get_or_create_user_state_def Let_def)
  let ?text = "if phone_masking_enabled me then mask_phone_numbers m0 else m0"
  {
    assume a: "startswith (lower (strip ?text)) ''#r''" and b: "relay_content ?text \<noteq> []"
    have "process_message s uid m0 nick e = handle_message_routing s1 uid (relay_content ?text)"
      using process_message_relay[OF g refl a] b by simp
    also have "\<dots> = (last ns, s1\<lparr>pending_notifications := (pending_notifications s1)(uid := None)\<rparr>)"
      by (rule routing_notified) (simp_all add: s1 assms)
    finally have "fst (process_message s uid m0 nick e) = last ns
        \<and> pending_messages (snd (process_message s uid m0 nick e)) = pending_messages s"
      by (simp add: s1)
  }
  then show "let me = fst (get_or_create_user_state s uid nick (t_entry e));
                 text = (if phone_masking_enabled me then mask_phone_numbers m0 else m0)
             in startswith (lower (strip text)) ''#r'' \<longrightarrow> relay_content text \<noteq> [] \<longrightarrow>
                fst (process_message s uid m0 nick e) = last ns
                \<and> pending_messages (snd (process_message s uid m0 nick e)) = pending_messages s"
    by (simp add: g Let_def)
qed

lemma demo_hi_unmasked: "mask_phone_numbers ''#r hi'' = ''#r hi''"
  by code_simp

lemma demo_hi_is_relay: "startswith (lower (strip ''#r hi'')) ''#r''" by code_simp
lemma demo_hi_content: "relay_content ''#r hi'' = ''hi''" by code_simp

theorem notification_priority_witness:
  "handle_message_routing demo_notified ''alice'' ''hi'' =
     (connected_note ''User_bob'', demo_notified\<lparr>pending_notifications := (pending_notifications demo_notified)(''alice'' := None)\<rparr>)
   \<and> fst (process_message demo_notified ''alice'' ''#r hi'' None demo_env) = connected_note ''User_bob''
   \<and> pending_messages (snd (process_message demo_notified ''alice'' ''#r hi'' None demo_env)) = Map.empty"
proof -
  have n: "pending_notifications demo_notified ''alice'' = Some [connected_note ''User_bob'']"
    by (simp add: demo_notified_def)
  have me: "phone_masking_enabled (fst (get_or_create_user_state demo_notified ''alice'' None (t_entry demo_env)))"
    by (simp add: get_or_create_user_state_def demo_notified_def demo_paired_def demo_alice_def Let_def)
  have pm: "pending_messages demo_notified = Map.empty"
    by (simp add: demo_notified_def demo_paired_def)
  from notification_priority[OF n, of "''hi''"] 
  have a: "handle_message_routing demo_notified ''alice'' ''hi'' =
     (connected_note ''User_bob'', demo_notified\<lparr>pending_notifications := (pending_notifications demo_notified)(''alice'' := None)\<rparr>)"
   and b: "\<And>m0 nick (e::env). (let me = fst (get_or_create_user_state demo_notified ''alice'' nick (t_entry e));
                 text = (if phone_masking_enabled me then mask_phone_numbers m0 else m0)
             in startswith (lower (strip text)) ''#r'' \<longrightarrow> relay_content text \<noteq> [] \<longrightarrow>
                fst (process_message demo_notified ''alice'' m0 nick e) = last [connected_note ''User_bob'']
                \<and> pending_messages (snd (process_message demo_notified ''alice'' m0 nick e)) = pending_messages demo_notified)"
    by simp_all
  from b[of None demo_env "''#r hi''"] show ?thesis
    using a by (simp add: Let_def me demo_hi_unmasked demo_hi_is_relay demo_hi_content pm)
qed

subsection \<open>A successful relay\<close>

lemma get_or_create_fields:
  assumes "get_or_create_user_state s0 uid nick now = (me, s)"
  shows "available_users s = available_users s0" "available_set s = available_set s0"
    "active_pairs s = active_pairs s0" "pending_notifications s = pending_notifications s0"
    "pending_messages s = pending_messages s0" "strict_mode s = strict_mode s0"
    "map_of (user_states s) uid = Some me"
    "u \<noteq> uid \<Longrightarrow> map_of (user_states s) u = map_of (user_states s0) u"
    "s = s0\<lparr>user_states := AList.update uid me (user_states s0)\<rparr>"
  using assms by (auto simp: get_or_create_user_state_def Let_def update_conv')

text \<open>
  C3, the claim as stated fails: Bob, paired with Alice and with masking enabled, sends
  \<open>#r call 9876543210\<close>. The message is redacted on entry to \<open>process_message\<close>,
  before the command is parsed, so the confirmation Bob gets shows \<open>call [hidden]\<close>
  and not the text he submitted.
\<close>

theorem relay_counterexample:
  "fst (process_message demo_paired ''bob'' ''#r call 9876543210'' None demo_env)
     = sent_reply ''User_bob'' ''call [hidden]''
   \<and> fst (process_message demo_paired ''bob'' ''#r call 9876543210'' None demo_env)
     \<noteq> sent_reply ''User_bob'' ''call 9876543210''
   \<and> pending_messages (snd (process_message demo_paired ''bob'' ''#r call 9876543210'' None demo_env)) ''alice''
     = Some [''call [hidden]'']"
  by code_simp

text \<open>
  C3, amended. Let \<open>text\<close> be the request after the entry step of \<open>process_message\<close>
  (redacted when the sender's masking is enabled, as submitted otherwise) and let it be
  an \<open>#r\<close> command with content. For a sender without pending notifications who is
  paired with a partner carrying the same session epoch, the relay appends the content,
  redacted per the sender's masking preference, at the end of the partner's message
  queue, and the confirmation echoes the content of \<open>text\<close>: the submitted content
  only when masking is disabled.
\<close>

theorem relay_confirmation:
  assumes "get_or_create_user_state s0 uid nick (t_entry e) = (me, s)"
    and "text = (if phone_masking_enabled me then mask_phone_numbers m0 else m0)"
    and "startswith (lower (strip text)) ''#r''" and "relay_content text \<noteq> []"
    and "get_list (pending_notifications s0) uid = []"
    and "active_pairs s0 uid = Some p" and "p \<noteq> []"
    and "map_of (user_states s) p = Some pst"
    and "partner_session_id me = partner_session_id pst"
  shows "process_message s0 uid m0 nick e =
           (sent_reply (nickname me) (relay_content text),
            s\<lparr>pending_notifications := (pending_notifications s0)(uid := None),
              pending_messages := (pending_messages s0)(p \<mapsto>
                enqueue_capped
                  (if phone_masking_enabled me then mask_phone_numbers (relay_content text)
                   else relay_content text)
                  (get_list (pending_messages s0) p))\<rparr>)
         \<and> last (get_list (pending_messages (snd (process_message s0 uid m0 nick e))) p) =
             (if phone_masking_enabled me then mask_phone_numbers (relay_content text)
              else relay_content text)
         \<and> (\<not> phone_masking_enabled me \<longrightarrow> text = m0)"
proof -
  note f = get_or_create_fields[OF assms(1)]
  have "process_message s0 uid m0 nick e = handle_message_routing s uid (relay_content text)"
    using process_message_relay[OF assms(1,2,3)] assms(4) by simp
  also have "\<dots> = (sent_reply (nickname me) (relay_content text),
            s\<lparr>pending_notifications := (pending_notifications s)(uid := None),
              pending_messages := (pending_messages s)(p \<mapsto>
                enqueue_capped
                  (if phone_masking_enabled me then mask_phone_numbers (relay_content text)
                   else relay_content text)
                  (get_list (pending_messages s) p))\<rparr>)"
    by (rule routing_relayed) (simp_all add: f(1-8) assms)
  finally have 1: "process_message s0 uid m0 nick e =
           (sent_reply (nickname me) (relay_content text),
            s\<lparr>pending_notifications := (pending_notifications s0)(uid := None),
              pending_messages := (pending_messages s0)(p \<mapsto>
                enqueue_capped
                  (if phone_masking_enabled me then mask_phone_numbers (relay_content text)
                   else relay_content text)
                  (get_list (pending_messages s0) p))\<rparr>)"
    by (simp add: f(4,5))
  have 2: "last (enqueue_capped x q) = x" for x :: string and q
    by (cases q) (auto simp: enqueue_capped_def Let_def last_tl)
  show ?thesis
    using 1 2 assms(2) by (simp add: get_list_def)
qed

lemma demo_call_masked: "mask_phone_numbers ''#r call 9876543210'' = ''#r call [hidden]''"
  by code_simp

lemma demo_call_is_relay: "startswith (lower (strip ''#r call [hidden]'')) ''#r''"
  by code_simp

lemma demo_call_content: "relay_content ''#r call [hidden]'' = ''call [hidden]''"
  by code_simp

lemma demo_call_content_masked: "mask_phone_numbers ''call [hidden]'' = ''call [hidden]''"
  by code_simp

theorem relay_confirmation_witness:
  "fst (process_message demo_paired ''bob'' ''#r call 9876543210'' None demo_env)
     = sent_reply ''User_bob'' ''call [hidden]''
   \<and> last (get_list (pending_messages
        (snd (process_message demo_paired ''bob'' ''#r call 9876543210'' None demo_env))) ''alice'')
     = ''call [hidden]''"
proof -
  define me where "me = demo_bob\<lparr>last_activity := 1000\<rparr>"
  define s where "s = demo_paired\<lparr>user_states := AList.update ''bob'' me (user_states demo_paired)\<rparr>"
  have g: "get_or_create_user_state demo_paired ''bob'' None (t_entry demo_env) = (me, s)"
    by (simp add: get_or_create_user_state_def demo_paired_def demo_env_def me_def s_def Let_def)
  have en: "phone_masking_enabled me" by (simp add: me_def demo_bob_def)
  have t: "''#r call [hidden]'' = (if phone_masking_enabled me then mask_phone_numbers ''#r call 9876543210'' else ''#r call 9876543210'')"
    by (simp add: en demo_call_masked)
  have r: "startswith (lower (strip ''#r call [hidden]'')) ''#r''" by (rule demo_call_is_relay)
  have c: "relay_content ''#r call [hidden]'' \<noteq> []" by (simp add: demo_call_content)
  have n: "get_list (pending_notifications demo_paired) ''bob'' = []"
    by (simp add: demo_paired_def get_list_def)
  have a: "active_pairs demo_paired ''bob'' = Some ''alice''" by (simp add: demo_paired_def)
  have ne: "''alice'' \<noteq> []" by simp
  have p: "map_of (user_states s) ''alice'' = Some demo_alice"
    by (simp add: s_def demo_paired_def)
  have sid: "partner_session_id me = partner_session_id demo_alice"
    by (simp add: me_def demo_bob_def demo_alice_def)
  note th = relay_confirmation[OF g t r c n a ne p sid]
  have nick: "nickname me = ''User_bob''" by (simp add: me_def demo_bob_def)
  have 1: "fst (process_message demo_paired ''bob'' ''#r call 9876543210'' None demo_env)
     = sent_reply ''User_bob'' ''call [hidden]''"
    using th[THEN conjunct1] by (simp add: nick demo_call_content)
  have 2: "last (get_list (pending_messages
        (snd (process_message demo_paired ''bob'' ''#r call 9876543210'' None demo_env))) ''alice'')
     = ''call [hidden]''"
    using th[THEN conjunct2, THEN conjunct1]
    by (simp only: en if_True demo_call_content demo_call_content_masked)
  from 1 2 show ?thesis by (rule conjI)
qed

text \<open>
  C7. A sender who is paired with a partner of the same session epoch and has no pending
  notification relays 101 messages to a partner whose message queue is empty, with
  nothing in between. The partner's queue then holds exactly the last 100 of them, each
  redacted per the sender's masking preference, in the order sent: the first message,
  the oldest, is the one dropped.
\<close>

theorem queue_cap:
  assumes "get_list (pending_notifications s) uid = []"
    and "active_pairs s uid = Some p" and "p \<noteq> []"
    and "map_of (user_states s) uid = Some me" and "map_of (user_states s) p = Some pst"
    and "partner_session_id me = partner_session_id pst"
    and "get_list (pending_messages s) p = []"
    and "length ms = 101"
  shows "pending_messages (relay_all s uid ms) p =
           Some (map (\<lambda>m. if phone_masking_enabled me then mask_phone_numbers m else m) (tl ms))
       \<and> length (get_list (pending_messages (relay_all s uid ms)) p) = 100"
proof -
  let ?f = "\<lambda>m. if phone_masking_enabled me then mask_phone_numbers m else m"
  have "get_list (pending_messages (relay_all s uid ms)) p = last_n 100 (map ?f ms)"
    using relay_all_queue[OF assms(1-6), of ms] assms(7) by simp
  also have "\<dots> = map ?f (tl ms)"
    using assms(8) by (simp add: last_n_def drop_Suc drop_map)
  finally have q: "get_list (pending_messages (relay_all s uid ms)) p = map ?f (tl ms)" .
  obtain m ms' where ms: "ms = m # ms'" using assms(8) by (cases ms) auto
  have "map ?f (tl ms) \<noteq> []" using assms(8) ms by auto
  with q have "pending_messages (relay_all s uid ms) p = Some (map ?f (tl ms))"
    by (auto simp: get_list_def split: option.splits)
  moreover have "length (map ?f (tl ms)) = 100" using assms(8) by simp
  ultimately show ?thesis using q by simp
qed

theorem queue_cap_witness:
  "pending_messages (relay_all demo_paired ''bob'' demo_messages) ''alice''
     = Some (map mask_phone_numbers (tl demo_messages))
   \<and> length (get_list (pending_messages (relay_all demo_paired ''bob'' demo_messages)) ''alice'') = 100"
proof -
  have n: "get_list (pending_notifications demo_paired) ''bob'' = []"
    by (simp add: demo_paired_def get_list_def)
  have a: "active_pairs demo_paired ''bob'' = Some ''alice''" by (simp add: demo_paired_def)
  have ne: "''alice'' \<noteq> []" by simp
  have me: "map_of (user_states demo_paired) ''bob'' = Some demo_bob"
    by (simp add: demo_paired_def)
  have p: "map_of (user_states demo_paired) ''alice'' = Some demo_alice"
    by (simp add: demo_paired_def)
  have sid: "partner_session_id demo_bob = partner_session_id demo_alice"
    by (simp add: demo_bob_def demo_alice_def)
  have q: "get_list (pending_messages demo_paired) ''alice'' = []"
    by (simp add: demo_paired_def get_list_def)
  have l: "length demo_messages = 101" by (simp add: demo_messages_def)
  have en: "phone_masking_enabled demo_bob" by (simp add: demo_bob_def)
  from queue_cap[OF n a ne me p sid q l] show ?thesis
    by (simp add: en)
qed

subsection \<open>Matching\<close>

lemma drain_find: "fst (drain q S) = List.find (\<lambda>c. c \<in> S) q"
  by (induction q) auto

lemma find_partner_waits:
  assumes "drain (available_users (queue_remove uid s)) (available_set (queue_remove uid s)) = (None, q, S)"
  shows "find_partner s uid sid =
           (None, queue_add uid ((queue_remove uid s)\<lparr>available_users := q, available_set := S\<rparr>))"
proof (cases "available_users (queue_remove uid s)")
  case Nil
  with assms have "q = []" "S = available_set (queue_remove uid s)" by simp_all
  with Nil show ?thesis by (simp add: find_partner_def Let_def queue_add_def)
next
  case (Cons h t)
  with assms show ?thesis by (simp add: find_partner_def Let_def)
qed

lemma find_partner_matches:
  assumes "drain (available_users (queue_remove uid s)) (available_set (queue_remove uid s)) = (Some p, q, S)"
  shows "find_partner s uid sid =
           (Some p,
            (queue_remove uid s)\<lparr>available_users := q, available_set := S,
               active_pairs := ((active_pairs s)(uid \<mapsto> p))(p \<mapsto> uid),
               user_states := set_partner p (Some uid) (Some sid)
                                (set_partner uid (Some p) (Some sid) (user_states s)),
               pending_notifications :=
                 notify p (connected_note
                             (case map_of (user_states s) uid of
                                Some st \<Rightarrow> nickname st | None \<Rightarrow> ''Partner''))
                   (pending_notifications s)\<rparr>)"
proof -
  have qr: "active_pairs (queue_remove uid s) = active_pairs s"
    "user_states (queue_remove uid s) = user_states s"
    "pending_notifications (queue_remove uid s) = pending_notifications s"
    by (simp_all add: queue_remove_def)
  have ne: "available_users (queue_remove uid s) \<noteq> []"
    using assms by (cases "available_users (queue_remove uid s)") auto
  have nick: "(case map_of (set_partner p (Some uid) (Some sid)
                  (set_partner uid (Some p) (Some sid) (user_states s))) uid of
                 Some st \<Rightarrow> nickname st | None \<Rightarrow> ''Partner'')
            = (case map_of (user_states s) uid of Some st \<Rightarrow> nickname st | None \<Rightarrow> ''Partner'')"
    by (auto simp: set_partner_def update_conv' split: option.splits)
  show ?thesis
    using assms ne by (simp add: find_partner_def Let_def qr nick)
qed

lemma find_partner_result:
  "fst (find_partner s uid sid) =
     List.find (\<lambda>c. c \<in> available_set s \<and> c \<noteq> uid) (available_users s)"
proof -
  let ?s = "queue_remove uid s"
  have q: "List.find (\<lambda>c. c \<in> available_set ?s) (available_users ?s) =
           List.find (\<lambda>c. c \<in> available_set s \<and> c \<noteq> uid) (available_users s)"
  proof (cases "uid \<in> available_set s")
    case False
    then have "(\<lambda>c. c \<in> available_set s \<and> c \<noteq> uid) = (\<lambda>c. c \<in> available_set s)" by auto
    with False show ?thesis by (simp add: queue_remove_def)
  next
    case True
    have f: "List.find (\<lambda>c. c \<in> S \<and> c \<noteq> uid) (filter (\<lambda>u. u \<noteq> uid) xs)
           = List.find (\<lambda>c. c \<in> S \<and> c \<noteq> uid) xs" for S xs
      by (induction xs) auto
    from True show ?thesis
      by (cases "available_users s") (auto simp: queue_remove_def f)
  qed
  obtain r q' S' where d: "drain (available_users ?s) (available_set ?s) = (r, q', S')"
    by (cases "drain (available_users ?s) (available_set ?s)")
  then have r: "r = List.find (\<lambda>c. c \<in> available_set ?s) (available_users ?s)"
    using drain_find[of "available_users ?s" "available_set ?s"] by simp
  have "fst (find_partner s uid sid) = r"
  proof (cases r)
    case None
    with d show ?thesis by (simp add: find_partner_waits)
  next
    case (Some p)
    with d show ?thesis by (simp add: find_partner_matches)
  qed
  with q r show ?thesis by simp
qed

lemma find_partner_pairs:
  assumes "find_partner s uid sid = (Some p, s')"
  shows "active_pairs s' = ((active_pairs s)(uid \<mapsto> p))(p \<mapsto> uid)"
proof -
  obtain r q S where d: "drain (available_users (queue_remove uid s)) (available_set (queue_remove uid s)) = (r, q, S)"
    by (cases "drain (available_users (queue_remove uid s)) (available_set (queue_remove uid s))")
  show ?thesis
  proof (cases r)
    case None
    with d assms show ?thesis by (simp add: find_partner_waits)
  next
    case (Some p')
    with d assms show ?thesis by (auto simp: find_partner_matches)
  qed
qed

text \<open>
  C8. \<open>find_partner\<close> returns the first entry of the waiting queue, in enqueue order,
  that is in \<open>available_set\<close> and is not the caller: entries that are no longer in the set
  are skipped, and the result is \<open>None\<close> when no entry is left. The session identifier
  plays no part in the choice. With live users \<open>[a, b, c]\<close> waiting, a new user is
  paired with \<open>a\<close>, in both directions of the pair map.
\<close>

theorem fifo_matching:
  "fst (find_partner s uid sid) =
     List.find (\<lambda>c. c \<in> available_set s \<and> c \<noteq> uid) (available_users s)
   \<and> (available_users s = [a, b, c] \<longrightarrow> {a, b, c} \<subseteq> available_set s \<longrightarrow> uid \<notin> {a, b, c} \<longrightarrow>
        fst (find_partner s uid sid) = Some a
        \<and> active_pairs (snd (find_partner s uid sid)) uid = Some a
        \<and> active_pairs (snd (find_partner s uid sid)) a = Some uid)"
proof (intro conjI impI)
  show "fst (find_partner s uid sid) =
     List.find (\<lambda>c. c \<in> available_set s \<and> c \<noteq> uid) (available_users s)"
    by (rule find_partner_result)
next
  assume h: "available_users s = [a, b, c]" "{a, b, c} \<subseteq> available_set s" "uid \<notin> {a, b, c}"
  then show r: "fst (find_partner s uid sid) = Some a"
    by (auto simp: find_partner_result)
  then obtain s' where f: "find_partner s uid sid = (Some a, s')"
    by (cases "find_partner s uid sid") auto
  from find_partner_pairs[OF f] h(3)
  show "active_pairs (snd (find_partner s uid sid)) uid = Some a"
    "active_pairs (snd (find_partner s uid sid)) a = Some uid"
    by (auto simp: f)
qed

theorem fifo_matching_witness:
  "fst (find_partner demo_waiting ''dan'' ''session-2'') = Some ''ann''
   \<and> active_pairs (snd (find_partner demo_waiting ''dan'' ''session-2'')) ''dan'' = Some ''ann''
   \<and> active_pairs (snd (find_partner demo_waiting ''dan'' ''session-2'')) ''ann'' = Some ''dan''"
proof -
  have q: "available_users demo_waiting = [''ann'', ''ben'', ''cat'']"
    by (simp add: demo_waiting_def)
  have l: "{''ann'', ''ben'', ''cat''} \<subseteq> available_set demo_waiting"
    by (simp add: demo_waiting_def)
  have n: "''dan'' \<notin> {''ann'', ''ben'', ''cat''}" by simp
  from fifo_matching[of demo_waiting "''dan''" "''session-2''" "''ann''" "''ben''" "''cat''"] q l n
  show ?thesis by blast
qed

lemma find_partner_Some:
  assumes "find_partner s uid sid = (Some p, s')"
  obtains q S where
    "drain (available_users (queue_remove uid s)) (available_set (queue_remove uid s)) = (Some p, q, S)"
proof -
  obtain r q S where d: "drain (available_users (queue_remove uid s)) (available_set (queue_remove uid s)) = (r, q, S)"
    by (cases "drain (available_users (queue_remove uid s)) (available_set (queue_remove uid s))")
  show thesis
  proof (cases r)
    case None
    with d assms show ?thesis by (simp add: find_partner_waits)
  next
    case (Some p')
    with d assms have "p' = p" by (simp add: find_partner_matches)
    with d Some that show ?thesis by simp
  qed
qed

text \<open>
  C10. Whenever \<open>find_partner\<close> pairs the caller with a waiting partner, the
  notification \<open>Connected! You're now chatting with N. Use #R to send and #M to check
  messages.\<close> (behind the party emoji), where \<open>N\<close> is the caller's nickname, or
  \<open>Partner\<close> when the caller has no profile, is appended to the partner's pending
  notifications, which are therefore not empty. A relay attempt of the partner in the
  resulting store returns that notification, and no message queue changes.
\<close>

theorem connected_notification:
  assumes "find_partner s uid sid = (Some p, s')"
    and "nick = (case map_of (user_states s) uid of Some st \<Rightarrow> nickname st | None \<Rightarrow> ''Partner'')"
    and "note = [CHR 0xF0, CHR 0x9F, CHR 0x8E, CHR 0x89]
                  @ '' Connected! You're now chatting with '' @ nick
                  @ ''. Use #R to send and #M to check messages.''"
  shows "pending_notifications s' p = Some (get_list (pending_notifications s) p @ [note])
       \<and> get_list (pending_notifications s') p \<noteq> []
       \<and> handle_message_routing s' p m =
           (note, s'\<lparr>pending_notifications := (pending_notifications s')(p := None)\<rparr>)
       \<and> pending_messages (snd (handle_message_routing s' p m)) = pending_messages s'"
proof -
  from assms(1) obtain q S where
    d: "drain (available_users (queue_remove uid s)) (available_set (queue_remove uid s)) = (Some p, q, S)"
    by (rule find_partner_Some)
  have nt: "note = connected_note (case map_of (user_states s) uid of
                                     Some st \<Rightarrow> nickname st | None \<Rightarrow> ''Partner'')"
    by (simp add: assms(2,3) connected_note_def emoji_party_def)
  have s': "pending_notifications s' = notify p note (pending_notifications s)"
    using find_partner_matches[OF d, of sid] assms(1) nt by auto
  then have n: "pending_notifications s' p = Some (get_list (pending_notifications s) p @ [note])"
    by (simp add: notify_def)
  then have ne: "get_list (pending_notifications s') p \<noteq> []"
    by (simp add: get_list_def)
  have r: "handle_message_routing s' p m =
           (last (get_list (pending_notifications s) p @ [note]),
            s'\<lparr>pending_notifications := (pending_notifications s')(p := None)\<rparr>)"
    by (rule routing_notified[OF n]) simp
  from n ne r show ?thesis by simp
qed

theorem connected_notification_witness:
  "pending_notifications (snd (find_partner demo_waiting ''dan'' ''session-2'')) ''ann''
     = Some [[CHR 0xF0, CHR 0x9F, CHR 0x8E, CHR 0x89]
               @ '' Connected! You're now chatting with Partner. Use #R to send and #M to check messages.'']
   \<and> fst (handle_message_routing (snd (find_partner demo_waiting ''dan'' ''session-2'')) ''ann'' ''hello'')
     = [CHR 0xF0, CHR 0x9F, CHR 0x8E, CHR 0x89]
         @ '' Connected! You're now chatting with Partner. Use #R to send and #M to check messages.''
   \<and> pending_messages (snd (handle_message_routing
        (snd (find_partner demo_waiting ''dan'' ''session-2'')) ''ann'' ''hello''))
     = pending_messages (snd (find_partner demo_waiting ''dan'' ''session-2''))"
proof -
  have d: "drain (available_users (queue_remove ''dan'' demo_waiting))
             (available_set (queue_remove ''dan'' demo_waiting))
           = (Some ''ann'', [''ben'', ''cat''], {''ann'', ''ben'', ''cat''} - {''ann''})"
    by (simp add: queue_remove_def demo_waiting_def)
  obtain s' where f: "find_partner demo_waiting ''dan'' ''session-2'' = (Some ''ann'', s')"
    using find_partner_matches[OF d] by simp
  have k: "''Partner'' = (case map_of (user_states demo_waiting) ''dan'' of
                            Some st \<Rightarrow> nickname st | None \<Rightarrow> ''Partner'')"
    by (simp add: demo_waiting_def init_manager_def)
  have g: "get_list (pending_notifications demo_waiting) ''ann'' = []"
    by (simp add: demo_waiting_def init_manager_def get_list_def)
  from connected_notification[OF f k refl, of "''hello''"] show ?thesis
    by (simp add: f g)
qed

subsection \<open>Invariants of the store\<close>

lemma store_inv_init: "store_inv init_manager"
  by (simp add: store_inv_def init_manager_def queue_ok_def named_partners_def exclusive_def profiled_def
      waiting_def pair_symmetric_def epochs_agree_def)

lemma drain_None: "drain q S = (None, q', S') \<Longrightarrow> q' = [] \<and> S' = S \<and> set q \<inter> S = {}"
  by (induction q) (auto split: if_splits)

lemma queue_remove_fields:
  "active_pairs (queue_remove uid s) = active_pairs s"
  "user_states (queue_remove uid s) = user_states s"
  "pending_notifications (queue_remove uid s) = pending_notifications s"
  "pending_messages (queue_remove uid s) = pending_messages s"
  by (simp_all add: queue_remove_def)

lemma queue_remove_subset:
  "set (available_users (queue_remove uid s)) \<subseteq> set (available_users s)"
  "available_set (queue_remove uid s) \<subseteq> available_set s"
  by (auto simp: queue_remove_def split: list.splits)

lemma queue_remove_ok:
  assumes "queue_ok s"
  shows "queue_ok (queue_remove uid s)" "available_set (queue_remove uid s) = available_set s - {uid}"
proof -
  show "available_set (queue_remove uid s) = available_set s - {uid}"
    by (simp add: queue_remove_def)
  show "queue_ok (queue_remove uid s)"
  proof (cases "uid \<in> available_set s")
    case False
    with assms show ?thesis by (simp add: queue_remove_def)
  next
    case True
    show ?thesis
    proof (cases "available_users s")
      case Nil
      with assms True show ?thesis by (simp add: queue_ok_def)
    next
      case (Cons h t)
      with assms True show ?thesis
        by (auto simp: queue_remove_def queue_ok_def)
    qed
  qed
qed

lemma queue_add_ok:
  assumes "queue_ok s"
  shows "queue_ok (queue_add uid s)" "available_set (queue_add uid s) = insert uid (available_set s)"
  using assms by (auto simp: queue_add_def queue_ok_def)

lemma queue_add_fields:
  "active_pairs (queue_add uid s) = active_pairs s"
  "user_states (queue_add uid s) = user_states s"
  by (simp_all add: queue_add_def)

lemma waiting_queue_ok: "queue_ok s \<Longrightarrow> waiting s u = (u \<in> available_set s)"
  by (auto simp: waiting_def queue_ok_def)

lemma map_of_set_partner:
  "map_of (set_partner u p sid us) v =
     (if v = u then map_option (\<lambda>st. st\<lparr>partner_id := p, partner_session_id := sid\<rparr>) (map_of us u)
      else map_of us v)"
  by (auto simp: set_partner_def update_conv' split: option.splits)

lemma store_invI:
  assumes dq: "distinct (available_users s)" and sq: "set (available_users s) = available_set s"
    and ne: "[] \<notin> available_set s"
    and w: "\<And>u. u \<in> available_set s \<Longrightarrow> map_of (user_states s) u \<noteq> None \<and> active_pairs s u = None"
    and pr: "\<And>a b. active_pairs s a = Some b \<Longrightarrow>
           b \<noteq> [] \<and> active_pairs s b = Some a
           \<and> (\<exists>ua ub. map_of (user_states s) a = Some ua \<and> map_of (user_states s) b = Some ub
                 \<and> partner_session_id ua = partner_session_id ub)"
  shows "store_inv s"
proof -
  have 1: "queue_ok s" using dq sq by (simp add: queue_ok_def)
  have 2: "named_partners s" unfolding named_partners_def using ne pr by blast
  have 3: "profiled s" unfolding profiled_def using w by blast
  have 4: "exclusive s" unfolding exclusive_def waiting_queue_ok[OF 1] using w by auto
  have 5: "pair_symmetric s" unfolding pair_symmetric_def using pr by blast
  have 6: "epochs_agree s" unfolding epochs_agree_def using pr by blast
  from 1 2 3 4 5 6 show ?thesis by (simp add: store_inv_def)
qed

lemma store_invD:
  assumes "store_inv s"
  shows "distinct (available_users s)" and "set (available_users s) = available_set s"
    and "[] \<notin> available_set s"
    and "u \<in> available_set s \<Longrightarrow> map_of (user_states s) u \<noteq> None"
    and "u \<in> available_set s \<Longrightarrow> active_pairs s u = None"
    and "active_pairs s a = Some b \<Longrightarrow> b \<noteq> []"
    and "active_pairs s a = Some b \<Longrightarrow> active_pairs s b = Some a"
    and "active_pairs s a = Some b \<Longrightarrow>
           \<exists>ua ub. map_of (user_states s) a = Some ua \<and> map_of (user_states s) b = Some ub
                 \<and> partner_session_id ua = partner_session_id ub"
proof -
  from assms have 1: "queue_ok s" and 2: "named_partners s" and 3: "profiled s"
    and 4: "exclusive s" and 5: "pair_symmetric s" and 6: "epochs_agree s"
    by (simp_all add: store_inv_def)
  from 1 show "distinct (available_users s)" "set (available_users s) = available_set s"
    by (simp_all add: queue_ok_def)
  from 2 show "[] \<notin> available_set s" by (simp add: named_partners_def)
  from 3 show "u \<in> available_set s \<Longrightarrow> map_of (user_states s) u \<noteq> None"
    unfolding profiled_def by blast
  from 4 show "u \<in> available_set s \<Longrightarrow> active_pairs s u = None"
    unfolding exclusive_def waiting_queue_ok[OF 1] by auto
  from 2 show "active_pairs s a = Some b \<Longrightarrow> b \<noteq> []"
    unfolding named_partners_def by blast
  from 5 show "active_pairs s a = Some b \<Longrightarrow> active_pairs s b = Some a"
    unfolding pair_symmetric_def by blast
  from 6 show "active_pairs s a = Some b \<Longrightarrow>
           \<exists>ua ub. map_of (user_states s) a = Some ua \<and> map_of (user_states s) b = Some ub
                 \<and> partner_session_id ua = partner_session_id ub"
    unfolding epochs_agree_def by blast
qed

lemma find_partner_inv_waits:
  assumes inv: "store_inv s" and uid: "uid \<noteq> []" and free: "active_pairs s uid = None"
    and prof: "map_of (user_states s) uid \<noteq> None"
    and d: "drain (available_users (queue_remove uid s)) (available_set (queue_remove uid s)) = (None, q, S)"
  shows "store_inv (snd (find_partner s uid sid))"
proof -
  let ?s1 = "queue_remove uid s"
  note D = store_invD[OF inv]
  define s' where "s' = queue_add uid (?s1\<lparr>available_users := q, available_set := S\<rparr>)"
  have f: "find_partner s uid sid = (None, s')"
    using find_partner_waits[OF d, of sid] by (simp add: s'_def)
  from drain_None[OF d] have e: "q = []" "S = available_set ?s1" "set (available_users ?s1) \<inter> available_set ?s1 = {}"
    by simp_all
  have qok: "queue_ok s" using D(1,2) by (simp add: queue_ok_def)
  from queue_remove_ok[OF qok, of uid] have "set (available_users ?s1) = available_set ?s1"
    by (simp add: queue_ok_def)
  with e(3) have S: "S = {}" by (simp add: e(2))
  have fl: "available_users s' = [uid]" "available_set s' = {uid}"
    "active_pairs s' = active_pairs s" "user_states s' = user_states s"
    by (simp_all add: s'_def queue_add_def queue_remove_fields e(1) S)
  have "store_inv s'"
  proof (rule store_invI)
    show "distinct (available_users s')" by (simp add: fl)
    show "set (available_users s') = available_set s'" by (simp add: fl)
    show "[] \<notin> available_set s'" using uid by (simp add: fl)
    show "map_of (user_states s') u \<noteq> None \<and> active_pairs s' u = None"
      if "u \<in> available_set s'" for u
      using that free prof by (simp add: fl)
    show "b \<noteq> [] \<and> active_pairs s' b = Some a
         \<and> (\<exists>ua ub. map_of (user_states s') a = Some ua \<and> map_of (user_states s') b = Some ub
               \<and> partner_session_id ua = partner_session_id ub)"
      if "active_pairs s' a = Some b" for a b
      using that D(6,7,8)[of a b] by (simp add: fl)
  qed
  with f show ?thesis by simp
qed


lemma drain_head:
  assumes "drain q0 S0 = (Some p, q, S)" and "distinct q0" and "set q0 = S0"
  shows "q0 = p # q" and "S = S0 - {p}" and "distinct q" and "set q = S" and "p \<in> S0"
proof -
  from assms(1) obtain c t where q0: "q0 = c # t" by (cases q0) auto
  with assms(3) have c: "c \<in> S0" by auto
  with assms(1) q0 have e: "p = c" "q = t" "S = S0 - {c}" by auto
  show "q0 = p # q" by (simp add: q0 e)
  show "S = S0 - {p}" by (simp add: e)
  show "distinct q" using assms(2) by (simp add: q0 e)
  show "p \<in> S0" using c by (simp add: e)
  have "c \<notin> set t" using assms(2) by (simp add: q0)
  moreover have "insert c (set t) = S0" using assms(3) by (simp add: q0)
  ultimately show "set q = S" unfolding e by auto
qed

lemma find_partner_inv_matches:
  assumes inv: "store_inv s" and uid: "uid \<noteq> []" and free: "active_pairs s uid = None"
    and prof: "map_of (user_states s) uid \<noteq> None"
    and d: "drain (available_users (queue_remove uid s)) (available_set (queue_remove uid s)) = (Some p, q, S)"
  shows "store_inv (snd (find_partner s uid sid))"
proof -
  let ?s1 = "queue_remove uid s"
  note D = store_invD[OF inv]
  have qok: "queue_ok s" using D(1,2) by (simp add: queue_ok_def)
  note q1 = queue_remove_ok[OF qok, of uid]
  from q1(1) have au1: "distinct (available_users ?s1)" "set (available_users ?s1) = available_set ?s1"
    by (simp_all add: queue_ok_def)
  have q1': "available_set ?s1 = available_set s - {uid}" by (rule q1(2))
  note h = drain_head[OF d au1]
  have dq: "distinct q" by (rule h(3))
  have sqS: "set q = S" by (rule h(4))
  from h(5) have pin: "p \<in> available_set s" "p \<noteq> uid" unfolding q1' by simp_all
  have S: "S = available_set s - {uid} - {p}" using h(2) unfolding q1' .
  from pin(1) have pp: "p \<noteq> []" "active_pairs s p = None" "map_of (user_states s) p \<noteq> None"
    using D(3) D(4)[of p] D(5)[of p] by auto
  obtain s' where f: "find_partner s uid sid = (Some p, s')"
    using find_partner_matches[OF d, of sid] by simp
  define us' where "us' = set_partner p (Some uid) (Some sid)
                              (set_partner uid (Some p) (Some sid) (user_states s))"
  have fl: "available_users s' = q" "available_set s' = S"
    "active_pairs s' = ((active_pairs s)(uid \<mapsto> p))(p \<mapsto> uid)" "user_states s' = us'"
    using find_partner_matches[OF d, of sid] f by (auto simp: us'_def)
  from prof pp(3) obtain su sp where st: "map_of (user_states s) uid = Some su"
    "map_of (user_states s) p = Some sp" by auto
  have us: "map_of us' v =
      (if v = p then Some (sp\<lparr>partner_id := Some uid, partner_session_id := Some sid\<rparr>)
       else if v = uid then Some (su\<lparr>partner_id := Some p, partner_session_id := Some sid\<rparr>)
       else map_of (user_states s) v)" for v
    using pin(2) st by (simp add: us'_def map_of_set_partner)
  have "store_inv s'"
  proof (rule store_invI)
    show "distinct (available_users s')" using dq by (simp add: fl)
    show "set (available_users s') = available_set s'" using sqS by (simp add: fl)
    show "[] \<notin> available_set s'" using D(3) by (simp add: fl S)
    show "map_of (user_states s') u \<noteq> None \<and> active_pairs s' u = None"
      if "u \<in> available_set s'" for u
    proof -
      from that have "u \<noteq> p" "u \<noteq> uid" "u \<in> available_set s" by (simp_all add: fl S)
      with D(4)[of u] D(5)[of u] show ?thesis by (simp add: fl us)
    qed
    show "b \<noteq> [] \<and> active_pairs s' b = Some a
         \<and> (\<exists>ua ub. map_of (user_states s') a = Some ua \<and> map_of (user_states s') b = Some ub
               \<and> partner_session_id ua = partner_session_id ub)"
      if ab: "active_pairs s' a = Some b" for a b
    proof (cases "a = p \<or> a = uid")
      case True
      with ab pin(2) uid pp(1) show ?thesis by (auto simp: fl us)
    next
      case False
      with ab have old: "active_pairs s a = Some b" by (simp add: fl)
      from D(7)[OF old] pp(2) free have "b \<noteq> p" "b \<noteq> uid" by auto
      with False old D(6)[OF old] D(7)[OF old] D(8)[OF old] show ?thesis by (simp add: fl us)
    qed
  qed
  with f show ?thesis by simp
qed
lemma find_partner_inv:
  assumes "store_inv s" and "uid \<noteq> []" and "active_pairs s uid = None"
    and "map_of (user_states s) uid \<noteq> None"
  shows "store_inv (snd (find_partner s uid sid))"
proof -
  obtain r q S where d: "drain (available_users (queue_remove uid s)) (available_set (queue_remove uid s)) = (r, q, S)"
    by (cases "drain (available_users (queue_remove uid s)) (available_set (queue_remove uid s))")
  show ?thesis
  proof (cases r)
    case None
    with d show ?thesis using find_partner_inv_waits[OF assms] by simp
  next
    case (Some p)
    with d show ?thesis using find_partner_inv_matches[OF assms] by simp
  qed
qed


lemma end_chat_inv:
  assumes inv: "store_inv s"
  shows "store_inv (snd (end_chat s uid))"
proof -
  note D = store_invD[OF inv]
  have qok: "queue_ok s" using D(1,2) by (simp add: queue_ok_def)
  show ?thesis
  proof (cases "active_pairs s uid")
    case None
    let ?s' = "queue_remove uid s"
    have e: "end_chat s uid = (None, ?s')" using None by (simp add: end_chat_def)
    note q1 = queue_remove_ok[OF qok, of uid]
    have "store_inv ?s'"
    proof (rule store_invI)
      show "distinct (available_users ?s')" "set (available_users ?s') = available_set ?s'"
        using q1(1) by (simp_all add: queue_ok_def)
      show "[] \<notin> available_set ?s'" using D(3) by (simp add: q1(2))
      show "map_of (user_states ?s') u \<noteq> None \<and> active_pairs ?s' u = None"
        if "u \<in> available_set ?s'" for u
        using that D(4)[of u] D(5)[of u] by (simp add: q1(2) queue_remove_fields)
      show "b \<noteq> [] \<and> active_pairs ?s' b = Some a
         \<and> (\<exists>ua ub. map_of (user_states ?s') a = Some ua \<and> map_of (user_states ?s') b = Some ub
               \<and> partner_session_id ua = partner_session_id ub)"
        if "active_pairs ?s' a = Some b" for a b
        using that D(6)[of a b] D(7)[of a b] D(8)[of a b] by (simp add: queue_remove_fields)
    qed
    with e show ?thesis by simp
  next
    case (Some p)
    from D(6)[OF Some] have pne: "p \<noteq> []" .
    from D(7)[OF Some] have bk: "active_pairs s p = Some uid" .
    define us' where "us' = set_partner p None None (set_partner uid None None (user_states s))"
    define s' where "s' = s\<lparr>active_pairs := ((active_pairs s)(uid := None))(p := None),
               user_states := us',
               pending_notifications := notify p partner_left_note (pending_notifications s)\<rparr>"
    have e: "end_chat s uid = (Some p, s')"
      using Some pne by (simp add: end_chat_def s'_def us'_def)
    have fl: "available_users s' = available_users s" "available_set s' = available_set s"
      "active_pairs s' = ((active_pairs s)(uid := None))(p := None)" "user_states s' = us'"
      by (simp_all add: s'_def)
    have us: "v \<noteq> p \<Longrightarrow> v \<noteq> uid \<Longrightarrow> map_of us' v = map_of (user_states s) v" for v
      by (simp add: us'_def map_of_set_partner)
    have dom: "map_of (user_states s) v \<noteq> None \<Longrightarrow> map_of us' v \<noteq> None" for v
      by (auto simp: us'_def map_of_set_partner)
    have "store_inv s'"
    proof (rule store_invI)
      show "distinct (available_users s')" "set (available_users s') = available_set s'"
        "[] \<notin> available_set s'"
        using D(1,2,3) by (simp_all add: fl)
      show "map_of (user_states s') u \<noteq> None \<and> active_pairs s' u = None"
        if "u \<in> available_set s'" for u
        using that D(4)[of u] D(5)[of u] dom[of u] by (simp add: fl)
      show "b \<noteq> [] \<and> active_pairs s' b = Some a
         \<and> (\<exists>ua ub. map_of (user_states s') a = Some ua \<and> map_of (user_states s') b = Some ub
               \<and> partner_session_id ua = partner_session_id ub)"
        if ab: "active_pairs s' a = Some b" for a b
      proof -
        from ab have a: "a \<noteq> p" "a \<noteq> uid" and old: "active_pairs s a = Some b"
          by (auto simp: fl split: if_splits)
        from D(7)[OF old] Some bk a have b: "b \<noteq> p" "b \<noteq> uid" by auto
        from a b old D(6)[OF old] D(7)[OF old] D(8)[OF old] show ?thesis
          by (simp add: fl us)
      qed
    qed
    with e show ?thesis by simp
  qed
qed

lemma end_chat_frees:
  assumes "store_inv s"
  shows "active_pairs (snd (end_chat s uid)) uid = None"
    and "map_of (user_states s) uid \<noteq> None \<Longrightarrow> map_of (user_states (snd (end_chat s uid))) uid \<noteq> None"
proof -
  note D = store_invD[OF assms]
  show "active_pairs (snd (end_chat s uid)) uid = None"
    using D(6)[of uid] by (cases "active_pairs s uid") (auto simp: end_chat_def queue_remove_fields)
  show "map_of (user_states s) uid \<noteq> None \<Longrightarrow> map_of (user_states (snd (end_chat s uid))) uid \<noteq> None"
    by (cases "active_pairs s uid") (auto simp: end_chat_def queue_remove_fields map_of_set_partner)
qed

lemma store_inv_users:
  assumes inv: "store_inv s"
    and q: "available_users s' = available_users s" "available_set s' = available_set s"
    and p: "active_pairs s' = active_pairs s"
    and us: "\<And>u st. map_of (user_states s) u = Some st \<Longrightarrow>
               \<exists>st'. map_of (user_states s') u = Some st'
                  \<and> partner_session_id st' = partner_session_id st"
  shows "store_inv s'"
proof (rule store_invI)
  note D = store_invD[OF inv]
  show "distinct (available_users s')" "set (available_users s') = available_set s'"
    "[] \<notin> available_set s'"
    using D(1,2,3) by (simp_all add: q)
  show "map_of (user_states s') u \<noteq> None \<and> active_pairs s' u = None"
    if "u \<in> available_set s'" for u
  proof -
    from that D(4)[of u] obtain st where "map_of (user_states s) u = Some st" by (auto simp: q)
    from us[OF this] that D(5)[of u] show ?thesis by (auto simp: q p)
  qed
  show "b \<noteq> [] \<and> active_pairs s' b = Some a
         \<and> (\<exists>ua ub. map_of (user_states s') a = Some ua \<and> map_of (user_states s') b = Some ub
               \<and> partner_session_id ua = partner_session_id ub)"
    if "active_pairs s' a = Some b" for a b
  proof -
    from that have old: "active_pairs s a = Some b" by (simp add: p)
    from D(8)[OF old] obtain ua ub where u: "map_of (user_states s) a = Some ua"
      "map_of (user_states s) b = Some ub" "partner_session_id ua = partner_session_id ub"
      by blast
    from us[OF u(1)] us[OF u(2)] u(3) D(6)[OF old] D(7)[OF old] show ?thesis
      by (auto simp: p)
  qed
qed

lemma store_inv_same:
  assumes "store_inv s"
    and "available_users s' = available_users s" "available_set s' = available_set s"
    and "active_pairs s' = active_pairs s" and "user_states s' = user_states s"
  shows "store_inv s'"
  by (rule store_inv_users[OF assms(1-4)]) (simp add: assms(5))

lemma get_or_create_inv:
  assumes "store_inv s" and "get_or_create_user_state s uid nick now = (me, s')"
  shows "store_inv s'"
proof (rule store_inv_users[OF assms(1)])
  note f = get_or_create_fields[OF assms(2)]
  show "available_users s' = available_users s" "available_set s' = available_set s"
    "active_pairs s' = active_pairs s" by (simp_all add: f(1-3))
  show "\<exists>st'. map_of (user_states s') u = Some st' \<and> partner_session_id st' = partner_session_id st"
    if "map_of (user_states s) u = Some st" for u st
  proof (cases "u = uid")
    case True
    with that assms(2) have "me = st\<lparr>last_activity := now\<rparr>"
      by (auto simp: get_or_create_user_state_def Let_def)
    with True f(7) show ?thesis by simp
  next
    case False
    with that f(8)[of u] show ?thesis by simp
  qed
qed

lemma toggle_inv:
  assumes "store_inv s"
  shows "store_inv (snd (toggle_phone_masking s uid now))"
proof -
  obtain me s1 where g: "get_or_create_user_state s uid None now = (me, s1)"
    by (cases "get_or_create_user_state s uid None now")
  note f = get_or_create_fields[OF g]
  let ?st = "me\<lparr>phone_masking_enabled := \<not> phone_masking_enabled me\<rparr>"
  let ?s2 = "s1\<lparr>user_states := AList.update uid ?st (user_states s1)\<rparr>"
  have t: "snd (toggle_phone_masking s uid now) = ?s2"
    by (simp add: toggle_phone_masking_def g Let_def)
  have "store_inv ?s2"
  proof (rule store_inv_users[OF get_or_create_inv[OF assms g]])
    show "\<exists>st'. map_of (user_states ?s2) u = Some st' \<and> partner_session_id st' = partner_session_id st"
      if "map_of (user_states s1) u = Some st" for u st
      using that f(7) by (cases "u = uid") (auto simp: update_conv')
  qed simp_all
  with t show ?thesis by simp
qed

lemma truthy_partner:
  assumes "store_inv s"
  shows "truthy (active_pairs s uid) = (active_pairs s uid \<noteq> None)"
  using store_invD(6)[OF assms, of uid] by (cases "active_pairs s uid") (auto simp: truthy_def)

lemma routing_inv:
  assumes "store_inv s"
  shows "store_inv (snd (handle_message_routing s uid m))"
  by (rule store_inv_same[OF assms])
     (auto simp: handle_message_routing_def Let_def split: option.splits)

lemma inbox_inv:
  assumes "store_inv s"
  shows "store_inv (snd (handle_inbox_command s uid))"
  by (rule store_inv_same[OF assms]) (auto simp: handle_inbox_command_def Let_def)

lemma meet_inv:
  assumes "store_inv s" and "uid \<noteq> []" and "map_of (user_states s) uid \<noteq> None"
  shows "store_inv (snd (handle_meet_command s uid sid))"
proof (cases "active_pairs s uid")
  case None
  obtain r s' where f: "find_partner s uid sid = (r, s')" by (cases "find_partner s uid sid")
  from find_partner_inv[OF assms(1,2) None assms(3), of sid] f have "store_inv s'" by simp
  with None f show ?thesis
    by (simp add: handle_meet_command_def get_partner_def truthy_def)
next
  case (Some p)
  with truthy_partner[OF assms(1), of uid] assms(1) show ?thesis
    by (simp add: handle_meet_command_def get_partner_def)
qed

lemma bye_inv:
  assumes "store_inv s"
  shows "store_inv (snd (handle_bye_command s uid))"
proof -
  obtain r s' where e: "end_chat s uid = (r, s')" by (cases "end_chat s uid")
  with end_chat_inv[OF assms, of uid] show ?thesis
    by (simp add: handle_bye_command_def)
qed

lemma again_inv:
  assumes "store_inv s" and "uid \<noteq> []" and "map_of (user_states s) uid \<noteq> None"
  shows "store_inv (snd (handle_again_command s uid sid))"
proof -
  obtain r s1 where e: "end_chat s uid = (r, s1)" by (cases "end_chat s uid")
  from end_chat_inv[OF assms(1), of uid] e have i1: "store_inv s1" by simp
  from end_chat_frees[OF assms(1), of uid] assms(3) e
  have fr: "active_pairs s1 uid = None" "map_of (user_states s1) uid \<noteq> None" by simp_all
  obtain r2 s2 where f: "find_partner s1 uid sid = (r2, s2)" by (cases "find_partner s1 uid sid")
  from find_partner_inv[OF i1 assms(2) fr, of sid] f have "store_inv s2" by simp
  with e f show ?thesis by (simp add: handle_again_command_def)
qed

lemma hide_inv:
  assumes "store_inv s"
  shows "store_inv (snd (handle_hide_command s uid now))"
proof -
  obtain r s' where t: "toggle_phone_masking s uid now = (r, s')"
    by (cases "toggle_phone_masking s uid now")
  with toggle_inv[OF assms, of uid now] show ?thesis by (simp add: handle_hide_command_def)
qed

lemma who_inv:
  assumes "store_inv s"
  shows "store_inv (snd (handle_who_command s uid))"
  using assms by (simp add: handle_who_command_def Let_def)

lemma process_message_inv:
  assumes inv: "store_inv s0" and uid: "uid \<noteq> []"
  shows "store_inv (snd (process_message s0 uid m0 nick e))"
proof -
  obtain me s where g: "get_or_create_user_state s0 uid nick (t_entry e) = (me, s)"
    by (cases "get_or_create_user_state s0 uid nick (t_entry e)")
  have i: "store_inv s" by (rule get_or_create_inv[OF inv g])
  have pr: "map_of (user_states s) uid \<noteq> None" using get_or_create_fields(7)[OF g] by simp
  have relax: "store_inv (snd (case handle_message_routing s uid x of
                   (outbound, s1) \<Rightarrow>
                     (let queued = get_list (pending_messages s1) uid;
                          s2 = s1\<lparr>pending_messages := (pending_messages s1)(uid := None)\<rparr>
                      in if queued \<noteq> []
                         then (outbound @ newline @ newline
                                 @ join newline
                                     (map (\<lambda>m. emoji_speech @ '' Partner: '' @ m) (last_n 10 queued)),
                               s2)
                         else (outbound, s2))))" for x
  proof -
    obtain ob s1 where r: "handle_message_routing s uid x = (ob, s1)"
      by (cases "handle_message_routing s uid x")
    from routing_inv[OF i, of uid x] r have "store_inv s1" by simp
    then have "store_inv (s1\<lparr>pending_messages := (pending_messages s1)(uid := None)\<rparr>)"
      by (rule store_inv_same) simp_all
    then show ?thesis by (simp add: r Let_def)
  qed
  show ?thesis
    unfolding process_message_def g prod.case Let_def
    using i meet_inv[OF i uid pr] bye_inv[OF i] again_inv[OF i uid pr] hide_inv[OF i]
      who_inv[OF i] inbox_inv[OF i] routing_inv[OF i] relax
    by (simp add: Let_def)
qed

lemma cleanup_same: "cleanup_inactive_users s now timeout = Some s' \<Longrightarrow> s' = s"
  by (simp add: cleanup_inactive_users_def split: list.splits)

lemma reachable_inv: "reachable s \<Longrightarrow> store_inv s"
proof (induction rule: reachable.induct)
  case start
  show ?case by (rule store_inv_init)
next
  case (request s uid m nick e)
  then show ?case by (simp add: process_message_inv)
next
  case (reaper s now timeout s')
  from cleanup_same[OF reaper.hyps(2)] reaper.IH show ?case by simp
qed

subsection \<open>Exclusivity of waiting and paired\<close>

lemma end_chat_exclusive:
  assumes "exclusive s"
  shows "exclusive (snd (end_chat s uid))"
proof -
  have w: "waiting (queue_remove uid s) u \<Longrightarrow> waiting s u" for u
    using queue_remove_subset[of uid s] by (auto simp: waiting_def)
  show ?thesis
  proof (cases "truthy (active_pairs s uid)")
    case False
    then have "snd (end_chat s uid) = queue_remove uid s"
      by (auto simp: end_chat_def truthy_def split: option.splits)
    with assms w show ?thesis by (auto simp: exclusive_def queue_remove_fields)
  next
    case True
    then obtain p where "active_pairs s uid = Some p" "p \<noteq> []"
      by (auto simp: truthy_def split: option.splits)
    then have "waiting (snd (end_chat s uid)) = waiting s"
      "\<And>u. active_pairs s u = None \<Longrightarrow> active_pairs (snd (end_chat s uid)) u = None"
      by (auto simp: end_chat_def waiting_def fun_eq_iff split: if_splits)
    with assms show ?thesis by (auto simp: exclusive_def)
  qed
qed



lemma find_partner_exclusive:
  assumes ex: "exclusive s" and qok: "queue_ok s" and free: "active_pairs s uid = None"
  shows "exclusive (snd (find_partner s uid sid))"
proof -
  let ?s1 = "queue_remove uid s"
  note q1 = queue_remove_ok[OF qok, of uid]
  from q1(1) have au1: "distinct (available_users ?s1)" "set (available_users ?s1) = available_set ?s1"
    by (simp_all add: queue_ok_def)
  have q1': "available_set ?s1 = available_set s - {uid}" by (rule q1(2))
  from ex have av: "u \<in> available_set s \<Longrightarrow> active_pairs s u = None" for u
    by (auto simp: exclusive_def waiting_def)
  obtain r q S where d: "drain (available_users ?s1) (available_set ?s1) = (r, q, S)"
    by (cases "drain (available_users ?s1) (available_set ?s1)")
  show ?thesis
  proof (cases r)
    case None
    from drain_None[OF d[unfolded None]] have e: "q = []" "S = available_set ?s1" by simp_all
    define s' where "s' = queue_add uid (?s1\<lparr>available_users := q, available_set := S\<rparr>)"
    have f: "find_partner s uid sid = (None, s')"
      using find_partner_waits[OF d[unfolded None], of sid] by (simp add: s'_def)
    have au: "set (available_users s') \<subseteq> insert uid (available_set s)"
      "available_set s' \<subseteq> insert uid (available_set s)"
      unfolding s'_def queue_add_def e q1' by auto
    have w: "waiting s' u \<Longrightarrow> u = uid \<or> u \<in> available_set s" for u
      using au unfolding waiting_def by auto
    have p: "active_pairs s' = active_pairs s"
      by (simp add: s'_def queue_add_def queue_remove_fields)
    have "active_pairs s' u = None" if "waiting s' u" for u
      using w[OF that] free av[of u] by (auto simp: p)
    then have "exclusive s'"
      unfolding exclusive_def by auto
    with f show ?thesis by simp
  next
    case (Some p)
    note h = drain_head[OF d[unfolded Some] au1]
    obtain s' where f: "find_partner s uid sid = (Some p, s')"
      using find_partner_matches[OF d[unfolded Some], of sid] by simp
    have fl: "available_users s' = q" "available_set s' = S"
      "active_pairs s' = ((active_pairs s)(uid \<mapsto> p))(p \<mapsto> uid)"
      using find_partner_matches[OF d[unfolded Some], of sid] f by auto
    have S: "S = available_set s - {uid} - {p}" using h(2) unfolding q1' .
    have "waiting s' u = (u \<in> S)" for u
      by (simp add: waiting_def fl h(4))
    then have w: "waiting s' u \<Longrightarrow> u \<noteq> uid \<and> u \<noteq> p \<and> u \<in> available_set s" for u
      by (simp add: S)
    have "active_pairs s' u = None" if "waiting s' u" for u
      using w[OF that] av[of u] by (simp add: fl)
    then have "exclusive s'"
      unfolding exclusive_def by auto
    with f show ?thesis by simp
  qed
qed

text \<open>
  For users with non-empty identifiers no reachable store has a user who is both
  waiting and paired.
\<close>

lemma reachable_exclusive: "reachable s \<Longrightarrow> exclusive s"
  using reachable_inv by (simp add: store_inv_def)

text \<open>
  C1 fails when a user identifier is the empty string. After \<open>''\<close> and \<open>A\<close> are paired,
  \<open>get_partner\<close> gives \<open>A\<close> the partner \<open>''\<close>, which \<open>_handle_meet_command\<close> tests by truth
  value (\<open>if current_partner:\<close>) and so takes for no partner, where \<open>find_partner\<close> tests
  \<open>partner_id is None\<close>. The second \<open>#meet\<close> of \<open>A\<close> is therefore not refused:
  \<open>find_partner\<close> finds the queue empty and enqueues \<open>A\<close>, who is then in the waiting
  queue, in its membership set and in the pair map at once.
\<close>

theorem waiting_and_paired_on_empty_id:
  "''A'' \<in> set (available_users requeue_store)
   \<and> ''A'' \<in> available_set requeue_store
   \<and> active_pairs requeue_store ''A'' = Some []
   \<and> \<not> exclusive requeue_store"
proof -
  have e: "''A'' \<in> set (available_users requeue_store)
      \<and> ''A'' \<in> available_set requeue_store
      \<and> active_pairs requeue_store ''A'' = Some []"
    by code_simp
  then have "waiting requeue_store ''A'' \<and> active_pairs requeue_store ''A'' \<noteq> None"
    by (simp add: waiting_def)
  then have "\<not> exclusive requeue_store" unfolding exclusive_def by blast
  with e show ?thesis by simp
qed

subsection \<open>Pair symmetry\<close>

text \<open>
  For users with non-empty identifiers the pair map of a reachable store is symmetric and
  both partners carry the same session epoch.
\<close>

lemma reachable_pairs:
  assumes "reachable s" and "active_pairs s a = Some b"
  shows "active_pairs s b = Some a"
    and "\<exists>ua ub. map_of (user_states s) a = Some ua \<and> map_of (user_states s) b = Some ub
           \<and> partner_session_id ua = partner_session_id ub"
  using store_invD(7,8)[OF reachable_inv[OF assms(1)] assms(2)] by blast+

text \<open>
  C2 fails when a user identifier is the empty string. The handlers test the partner by
  truth value (\<open>if current_partner:\<close>, \<open>if partner_id:\<close>), so a partner \<open>''\<close> counts as no
  partner, while \<open>find_partner\<close> itself tests \<open>partner_id is None\<close>. After \<open>''\<close> and \<open>A\<close>
  are paired, a second \<open>#meet\<close> of \<open>A\<close> is not refused and puts \<open>A\<close> in the queue, and the
  \<open>#meet\<close> of \<open>B\<close> pairs \<open>B\<close> with \<open>A\<close>: the pair map then sends \<open>''\<close> to \<open>A\<close> and \<open>A\<close>
  to \<open>B\<close>, and the stored epochs of \<open>''\<close> and \<open>A\<close> differ.
\<close>

theorem asymmetric_pairs_on_empty_id:
  "active_pairs bug_store [] = Some ''A''
   \<and> active_pairs bug_store ''A'' = Some ''B''
   \<and> map_option partner_session_id (map_of (user_states bug_store) []) = Some (Some ''session-2'')
   \<and> map_option partner_session_id (map_of (user_states bug_store) ''A'') = Some (Some ''session-4'')"
  by code_simp

subsection \<open>The redactor\<close>

text \<open>
  The matcher against the words of a pattern: a match is a prefix that the pattern
  accepts, and a position where some prefix is accepted has a match.
\<close>

lemma accepts_skip: "accepts r w \<Longrightarrow> accepts (Rep c 0 hi # r) w"
proof -
  assume a: "accepts r w"
  have "0 \<in> {0..length w}" by simp
  moreover have "case hi of None \<Rightarrow> True | Some h \<Rightarrow> 0 \<le> h" by (cases hi) simp_all
  moreover have "list_all (in_class c) (take 0 w)" by simp
  moreover have "accepts r (drop 0 w)" using a by simp
  ultimately show ?thesis unfolding accepts.simps by blast
qed

lemma accepts_take:
  assumes "in_class c x" and "hi \<noteq> Some 0"
    and "accepts (Rep c (lo - 1) (map_option (\<lambda>h. h - 1) hi) # r) w"
  shows "accepts (Rep c lo hi # r) (x # w)"
proof -
  from assms(3) obtain k where k: "lo - 1 \<le> k" "k \<le> length w"
    "case map_option (\<lambda>h. h - 1) hi of None \<Rightarrow> True | Some h \<Rightarrow> k \<le> h"
    "list_all (in_class c) (take k w)" "accepts r (drop k w)"
    by auto
  have "Suc k \<in> {lo..length (x # w)}" using k(1,2) by auto
  moreover have "case hi of None \<Rightarrow> True | Some h \<Rightarrow> Suc k \<le> h"
    using k(3) assms(2) by (cases hi) auto
  moreover have "list_all (in_class c) (take (Suc k) (x # w))" using k(4) assms(1) by simp
  moreover have "accepts r (drop (Suc k) (x # w))" using k(5) by simp
  ultimately show ?thesis unfolding accepts.simps by blast
qed

lemma match_sound:
  "wordb_free p \<Longrightarrow> match_here p prev s = Some n \<Longrightarrow> n \<le> length s \<and> accepts p (take n s)"
proof (induction p prev s arbitrary: n rule: match_here.induct)
  case (1 prev s)
  then show ?case by simp
next
  case (2 r prev s)
  then show ?case by simp
next
  case (3 c lo hi r prev)
  from "3.prems" have lo: "lo = 0" and m: "match_here r prev [] = Some n" and wf: "wordb_free r"
    by (auto split: if_splits)
  from "3.IH"[OF lo wf m] have "n \<le> length ([]::string)" "accepts r (take n [])" by simp_all
  then show ?case using accepts_skip[of r "take n []" c hi] lo by simp
next
  case (4 c lo hi r prev x xs)
  let ?inner = "match_here (Rep c (lo - 1) (map_option (\<lambda>h. h - 1) hi) # r) (Some x) xs"
  have wf: "wordb_free r" using "4.prems"(1) by simp
  show ?case
  proof (cases "in_class c x \<and> hi \<noteq> Some 0")
    case True
    show ?thesis
    proof (cases ?inner)
      case None
      with "4.prems"(2) True have lo: "lo = 0" and m: "match_here r prev (x # xs) = Some n"
        by (auto split: if_splits)
      from "4.IH"(2)[OF True None lo wf m]
      have "n \<le> length (x # xs)" "accepts r (take n (x # xs))" by simp_all
      then show ?thesis using accepts_skip[of r "take n (x # xs)" c hi] lo by simp
    next
      case (Some n')
      with "4.prems"(2) True have n: "n = Suc n'" by simp
      have wf': "wordb_free (Rep c (lo - 1) (map_option (\<lambda>h. h - 1) hi) # r)" using wf by simp
      note ih = "4.IH"(1)[OF True wf' Some]
      have le: "n' \<le> length xs" by (rule ih[THEN conjunct1])
      have acc: "accepts (Rep c (lo - 1) (map_option (\<lambda>h. h - 1) hi) # r) (take n' xs)"
        by (rule ih[THEN conjunct2])
      from True have "in_class c x" "hi \<noteq> Some 0" by simp_all
      then have "accepts (Rep c lo hi # r) (x # take n' xs)" using acc by (rule accepts_take)
      then have "accepts (Rep c lo hi # r) (take n (x # xs))" unfolding n by simp
      moreover have "n \<le> length (x # xs)" using le n by simp
      ultimately show ?thesis by (rule conjI[rotated])
    qed
  next
    case False
    with "4.prems"(2) have lo: "lo = 0" and m: "match_here r prev (x # xs) = Some n"
      by (auto split: if_splits)
    from "4.IH"(3)[OF False lo wf m]
    have "n \<le> length (x # xs)" "accepts r (take n (x # xs))" by simp_all
    then show ?thesis using accepts_skip[of r "take n (x # xs)" c hi] lo by simp
  qed
qed

lemma accepts_cases:
  assumes "accepts (Rep c lo hi # r) w"
  shows "(lo = 0 \<and> accepts r w)
       \<or> (\<exists>x w'. w = x # w' \<and> in_class c x \<and> hi \<noteq> Some 0
              \<and> accepts (Rep c (lo - 1) (map_option (\<lambda>h. h - 1) hi) # r) w')"
proof -
  from assms obtain k where k: "lo \<le> k" "k \<le> length w"
    "case hi of None \<Rightarrow> True | Some h \<Rightarrow> k \<le> h"
    "list_all (in_class c) (take k w)" "accepts r (drop k w)"
    by auto
  show ?thesis
  proof (cases k)
    case 0
    with k show ?thesis by simp
  next
    case (Suc k')
    with k(2) obtain x w' where w: "w = x # w'" by (cases w) auto
    have 1: "in_class c x" using k(4) Suc w by simp
    have 2: "hi \<noteq> Some 0" using k(3) Suc by (cases hi) auto
    have "k' \<in> {lo - 1..length w'}" using k(1,2) Suc w by auto
    moreover have "case map_option (\<lambda>h. h - 1) hi of None \<Rightarrow> True | Some h \<Rightarrow> k' \<le> h"
      using k(3) Suc by (cases hi) auto
    moreover have "list_all (in_class c) (take k' w')" using k(4) Suc w by simp
    moreover have "accepts r (drop k' w')" using k(5) Suc w by simp
    ultimately have "accepts (Rep c (lo - 1) (map_option (\<lambda>h. h - 1) hi) # r) w'"
      unfolding accepts.simps by blast
    with w 1 2 show ?thesis by blast
  qed
qed

declare accepts.simps(3) [simp del]

lemma match_complete:
  "wordb_free p \<Longrightarrow> n \<le> length s \<Longrightarrow> accepts p (take n s) \<Longrightarrow> match_here p prev s \<noteq> None"
proof (induction p prev s arbitrary: n rule: match_here.induct)
  case (1 prev s)
  then show ?case by simp
next
  case (2 r prev s)
  then show ?case by simp
next
  case (3 c lo hi r prev)
  have wf: "wordb_free r" using "3.prems"(1) by simp
  from "3.prems"(3) have a: "accepts (Rep c lo hi # r) []" by simp
  from accepts_cases[OF a] have lo: "lo = 0" and ar: "accepts r []" by auto
  from "3.IH"[OF lo wf, of 0] ar have "match_here r prev [] \<noteq> None" by simp
  with lo show ?case by simp
next
  case (4 c lo hi r prev x xs)
  let ?inner = "match_here (Rep c (lo - 1) (map_option (\<lambda>h. h - 1) hi) # r) (Some x) xs"
  have wf: "wordb_free r" using "4.prems"(1) by simp
  have wf': "wordb_free (Rep c (lo - 1) (map_option (\<lambda>h. h - 1) hi) # r)" using wf by simp
  from accepts_cases[OF "4.prems"(3)]
  consider (skip) "lo = 0" "accepts r (take n (x # xs))"
    | (take) x' w' where "take n (x # xs) = x' # w'" "in_class c x'" "hi \<noteq> Some 0"
        "accepts (Rep c (lo - 1) (map_option (\<lambda>h. h - 1) hi) # r) w'"
    by blast
  then show ?case
  proof cases
    case skip
    show ?thesis
    proof (cases "in_class c x \<and> hi \<noteq> Some 0")
      case True
      show ?thesis
      proof (cases ?inner)
        case None
        from "4.IH"(2)[OF True None skip(1) wf "4.prems"(2) skip(2)]
        show ?thesis using True None skip(1) by simp
      next
        case (Some a)
        with True show ?thesis by simp
      qed
    next
      case False
      from "4.IH"(3)[OF False skip(1) wf "4.prems"(2) skip(2)]
      show ?thesis using False skip(1) by auto
    qed
  next
    case take
    from take(1) obtain n' where n: "n = Suc n'" by (cases n) auto
    with take(1) have e: "x' = x" "w' = take n' xs" by simp_all
    have T: "in_class c x \<and> hi \<noteq> Some 0" using take(2,3) e by simp
    have le: "n' \<le> length xs" using "4.prems"(2) n by simp
    from "4.IH"(1)[OF T wf' le] take(4) e have "?inner \<noteq> None" by simp
    with T show ?thesis by auto
  qed
qed

lemma accepts_RepD:
  assumes "accepts (Rep c lo hi # r) w"
  obtains k where "lo \<le> k" "k \<le> length w" "list_all (in_class c) (take k w)"
    "accepts r (drop k w)"
  using assms unfolding accepts.simps by auto

lemma accepts_min_len: "accepts p w \<Longrightarrow> min_len p \<le> length w"
proof (induction p arbitrary: w)
  case Nil
  then show ?case by simp
next
  case (Cons i p)
  show ?case
  proof (cases i)
    case WordB
    with Cons show ?thesis by simp
  next
    case (Rep c lo hi)
    from Cons.prems[unfolded Rep] obtain k where k: "lo \<le> k" "k \<le> length w"
      "accepts p (drop k w)" by (rule accepts_RepD)
    from Cons.IH[OF k(3)] k(1,2) show ?thesis by (simp add: Rep)
  qed
qed

lemma class_plain_char: "class_plain c \<Longrightarrow> in_class c x \<Longrightarrow> x \<notin> set hidden"
  by (cases c) (auto simp: hidden_def is_digit_def is_space_def code_def)

lemma accepts_plain: "classes_plain p \<Longrightarrow> accepts p w \<Longrightarrow> set w \<inter> set hidden = {}"
proof (induction p arbitrary: w)
  case Nil
  then show ?case by simp
next
  case (Cons i p)
  show ?case
  proof (cases i)
    case WordB
    with Cons show ?thesis by simp
  next
    case (Rep c lo hi)
    from Cons.prems(2)[unfolded Rep] obtain k where k: "list_all (in_class c) (take k w)"
      "accepts p (drop k w)" by (rule accepts_RepD)
    from Cons.prems(1) Rep have cp: "class_plain c" "classes_plain p" by simp_all
    from k(1) cp(1) have "set (take k w) \<inter> set hidden = {}"
      using class_plain_char[of c] by (auto simp: list_all_iff)
    moreover from Cons.IH[OF cp(2) k(2)] have "set (drop k w) \<inter> set hidden = {}" .
    moreover have "set w = set (take k w) \<union> set (drop k w)"
      by (metis append_take_drop_id set_append)
    ultimately show ?thesis by blast
  qed
qed

lemma accepts_digit: "needs_digit p \<Longrightarrow> accepts p w \<Longrightarrow> \<exists>x\<in>set w. is_digit x"
proof (induction p arbitrary: w)
  case Nil
  then show ?case by simp
next
  case (Cons i p)
  show ?case
  proof (cases i)
    case WordB
    with Cons show ?thesis by simp
  next
    case (Rep c lo hi)
    from Cons.prems(2)[unfolded Rep] obtain k where k: "lo \<le> k" "k \<le> length w"
      "list_all (in_class c) (take k w)" "accepts p (drop k w)" by (rule accepts_RepD)
    show ?thesis
    proof (cases "c = Digit \<and> 0 < lo")
      case True
      with k(1,2) obtain x w' where w: "w = x # w'" by (cases w) auto
      with k(1,3) True have "is_digit x" by (cases k) auto
      with w show ?thesis by auto
    next
      case False
      with Cons.prems(1) Rep have "needs_digit p" by auto
      from Cons.IH[OF this k(4)] obtain x where "x \<in> set (drop k w)" "is_digit x" by blast
      then show ?thesis using in_set_dropD by fast
    qed
  qed
qed

text \<open>
  A substitution replaces parts of the text by the placeholder. No pattern of
  \<open>phone_patterns\<close> can match a character of the placeholder, so a substitution never
  creates an occurrence of such a pattern.
\<close>

lemma masks_sub: "masks s (sub_from p prev s)"
proof (induction p prev s rule: sub_from.induct)
  case (1 p prev)
  show ?case
  proof (cases "match_here p prev []")
    case None
    then show ?thesis by (simp add: masks.nil)
  next
    case (Some a)
    from masks.hide[OF masks.nil, of "[]"] Some show ?thesis by simp
  qed
next
  case (2 p prev c cs)
  show ?case
  proof (cases "match_here p prev (c # cs)")
    case None
    from masks.keep[OF "2.IH"(1)[OF None]] None show ?thesis by simp
  next
    case (Some n)
    show ?thesis
    proof (cases n)
      case 0
      from masks.hide[OF masks.keep[OF "2.IH"(2)[OF Some 0]], of "[]"] Some 0
      show ?thesis by simp
    next
      case (Suc n')
      from masks.hide[OF "2.IH"(3)[OF Some Suc], of "c # take n' cs"] Some Suc
      show ?thesis by simp
    qed
  qed
qed

lemma masks_prefix:
  "masks s t \<Longrightarrow> set w \<inter> set hidden = {} \<Longrightarrow> t = w @ v' \<Longrightarrow> \<exists>v. s = w @ v"
proof (induction arbitrary: w v' rule: masks.induct)
  case nil
  then show ?case by simp
next
  case (keep s t c)
  show ?case
  proof (cases w)
    case Nil
    then show ?thesis by simp
  next
    case (Cons x w')
    with keep.prems have "x = c" "t = w' @ v'" "set w' \<inter> set hidden = {}" by auto
    from keep.IH[OF this(3,2)] obtain v where "s = w' @ v" by blast
    with Cons \<open>x = c\<close> show ?thesis by simp
  qed
next
  case (hide s t m)
  show ?case
  proof (cases w)
    case Nil
    then show ?thesis by simp
  next
    case (Cons x w')
    with hide.prems(2) have "x = CHR ''[''" by (simp add: hidden_def)
    with Cons hide.prems(1) show ?thesis by (simp add: hidden_def)
  qed
qed

lemma masks_substring:
  "masks s t \<Longrightarrow> set w \<inter> set hidden = {} \<Longrightarrow> w \<noteq> [] \<Longrightarrow> t = u' @ w @ v'
     \<Longrightarrow> \<exists>u v. s = u @ w @ v"
proof (induction arbitrary: u' rule: masks.induct)
  case nil
  then show ?case by simp
next
  case (keep s t c)
  show ?case
  proof (cases u')
    case Nil
    with keep.prems(3) have "c # t = w @ v'" by simp
    from masks_prefix[OF masks.keep[OF keep.hyps] keep.prems(1) this]
    obtain v where "c # s = w @ v" by blast
    then have "c # s = [] @ w @ v" by simp
    then show ?thesis by blast
  next
    case (Cons x u'')
    with keep.prems(3) have "t = u'' @ w @ v'" by simp
    from keep.IH[OF keep.prems(1,2) this] obtain u v where "s = u @ w @ v" by blast
    then have "c # s = (c # u) @ w @ v" by simp
    then show ?thesis by blast
  qed
next
  case (hide s t m)
  from hide.prems(3) obtain us where
    us: "(hidden = u' @ us \<and> us @ t = w @ v') \<or> (hidden @ us = u' \<and> t = us @ w @ v')"
    unfolding append_eq_append_conv2 by blast
  have "\<exists>u''. t = u'' @ w @ v'"
  proof -
    from us consider (a) "hidden = u' @ us" "us @ t = w @ v'" | (b) "t = us @ w @ v'" by blast
    then show ?thesis
    proof cases
      case a
      show ?thesis
      proof (cases us)
        case Nil
        with a(2) have "t = [] @ w @ v'" by simp
        then show ?thesis by blast
      next
        case (Cons x us')
        with a(2) hide.prems(2) have "hd w = x" by (cases w) auto
        moreover have "x \<in> set hidden" using a(1) Cons by (metis in_set_conv_decomp)
        moreover have "hd w \<in> set w" using hide.prems(2) by simp
        ultimately show ?thesis using hide.prems(1) by blast
      qed
    next
      case b
      then show ?thesis by blast
    qed
  qed
  then obtain u'' where "t = u'' @ w @ v'" by blast
  from hide.IH[OF hide.prems(1,2) this] obtain u v where "s = u @ w @ v" by blast
  then have "m @ s = (m @ u) @ w @ v" by simp
  then show ?case by blast
qed

lemma occurs_masks:
  assumes "pat_ok p" and "masks s t" and "occurs p t"
  shows "occurs p s"
proof -
  from assms(3) obtain u w v where t: "t = u @ w @ v" and a: "accepts p w"
    unfolding occurs_def by blast
  from assms(1) have cp: "classes_plain p" and ml: "0 < min_len p" by (simp_all add: pat_ok_def)
  from accepts_plain[OF cp a] have pl: "set w \<inter> set hidden = {}" .
  from accepts_min_len[OF a] ml have ne: "w \<noteq> []" by auto
  from masks_substring[OF assms(2) pl ne t] a show ?thesis unfolding occurs_def by blast
qed

lemma match_occurs:
  assumes "wordb_free p" and "match_here p prev s = Some n"
  shows "occurs p s"
proof -
  from match_sound[OF assms] have "accepts p (take n s)" by simp
  moreover have "s = [] @ take n s @ drop n s" by simp
  ultimately show ?thesis unfolding occurs_def by blast
qed

lemma occurs_Cons: "occurs p cs \<Longrightarrow> occurs p (c # cs)"
proof -
  assume "occurs p cs"
  then obtain u w v where "cs = u @ w @ v" "accepts p w" unfolding occurs_def by blast
  then have "c # cs = (c # u) @ w @ v" "accepts p w" by simp_all
  then show ?thesis unfolding occurs_def by blast
qed

lemma sub_id:
  "wordb_free p \<Longrightarrow> \<not> occurs p s \<Longrightarrow> sub_from p prev s = s"
proof (induction s arbitrary: prev)
  case Nil
  with match_occurs[of p prev "[]"] have "match_here p prev [] = None"
    by (cases "match_here p prev []") auto
  then show ?case by simp
next
  case (Cons c cs)
  with match_occurs[of p prev "c # cs"] have m: "match_here p prev (c # cs) = None"
    by (cases "match_here p prev (c # cs)") auto
  from Cons.prems(2) occurs_Cons[of p cs c] have "\<not> occurs p cs" by blast
  from Cons.IH[OF Cons.prems(1) this] m show ?case by simp
qed

lemma no_empty_match:
  assumes "pat_ok p"
  shows "match_here p prev s \<noteq> Some 0"
proof
  assume m: "match_here p prev s = Some 0"
  from assms have wf: "wordb_free p" and ml: "0 < min_len p" by (simp_all add: pat_ok_def)
  from match_sound[OF wf m] have "accepts p []" by simp
  from accepts_min_len[OF this] ml show False by simp
qed

lemma occurs_plain:
  assumes "pat_ok p" and "accepts p w"
  shows "set w \<inter> set hidden = {}" and "w \<noteq> []"
proof -
  from assms(1) have cp: "classes_plain p" and ml: "0 < min_len p" by (simp_all add: pat_ok_def)
  show "set w \<inter> set hidden = {}" by (rule accepts_plain[OF cp assms(2)])
  from accepts_min_len[OF assms(2)] ml show "w \<noteq> []" by auto
qed

lemma occurs_hidden_append:
  assumes ok: "pat_ok p" and o: "occurs p (hidden @ t)"
  shows "occurs p t"
proof -
  have "masks ([] @ t) (hidden @ t)" if "masks t t" using that by (rule masks.hide)
  moreover have "masks t t" by (induction t) (auto intro: masks.intros)
  ultimately have m: "masks t (hidden @ t)" by simp
  from occurs_masks[OF ok m o] show ?thesis .
qed

lemma sub_no_occurs:
  "pat_ok p \<Longrightarrow> \<not> occurs p (sub_from p prev s)"
proof (induction p prev s rule: sub_from.induct)
  case (1 p prev)
  from "1.prems" have wf: "wordb_free p" by (simp add: pat_ok_def)
  have m: "match_here p prev [] = None"
  proof (cases "match_here p prev []")
    case (Some n)
    from match_sound[OF wf Some] have "n = 0" by simp
    with Some no_empty_match[OF "1.prems", of prev "[]"] show ?thesis by simp
  qed simp
  have "\<not> occurs p []"
  proof
    assume "occurs p []"
    then have "accepts p []" unfolding occurs_def by auto
    with occurs_plain(2)[OF "1.prems"] show False by blast
  qed
  with m show ?case by simp
next
  case (2 p prev c cs)
  note ok = "2.prems"
  from ok have wf: "wordb_free p" by (simp add: pat_ok_def)
  show ?case
  proof (cases "match_here p prev (c # cs)")
    case None
    let ?t = "sub_from p (Some c) cs"
    from "2.IH"(1)[OF None ok] have ih: "\<not> occurs p ?t" .
    have "\<not> occurs p (c # ?t)"
    proof
      assume "occurs p (c # ?t)"
      then obtain u w v where e: "c # ?t = u @ w @ v" and a: "accepts p w"
        unfolding occurs_def by blast
      show False
      proof (cases u)
        case Nil
        with e have e': "c # ?t = w @ v" by simp
        have mk: "masks (c # cs) (c # ?t)" by (rule masks.keep[OF masks_sub])
        from masks_prefix[OF mk occurs_plain(1)[OF ok a] e'] obtain v0 where
          v0: "c # cs = w @ v0" by blast
        then have "take (length w) (c # cs) = w" by simp
        with a have "accepts p (take (length w) (c # cs))" by simp
        moreover have "length w \<le> length (c # cs)" unfolding v0 by simp
        ultimately have "match_here p prev (c # cs) \<noteq> None"
          using match_complete[OF wf] by blast
        with None show False by simp
      next
        case (Cons x u')
        with e have "?t = u' @ w @ v" by auto
        with a ih show False unfolding occurs_def by blast
      qed
    qed
    with None show ?thesis by simp
  next
    case (Some n)
    show ?thesis
    proof (cases n)
      case 0
      with Some no_empty_match[OF ok, of prev "c # cs"] show ?thesis by simp
    next
      case (Suc n')
      let ?t = "sub_from p (Some ((c # cs) ! n')) (drop n' cs)"
      from "2.IH"(3)[OF Some Suc ok] have ih: "\<not> occurs p ?t" .
      with occurs_hidden_append[OF ok, of ?t] have "\<not> occurs p (hidden @ ?t)" by blast
      with Some Suc show ?thesis by simp
    qed
  qed
qed

text \<open>
  The catch-all rule matches exactly at a run of at least eight digits with no word
  character on either side, and takes the whole run.
\<close>

lemma digit_is_word: "is_digit x \<Longrightarrow> is_word x"
  by (simp add: is_digit_def is_word_def Let_def)

lemma rep_wordb:
  "(lo = 0 \<longrightarrow> is_word_opt prev) \<Longrightarrow>
   match_here [Rep Digit lo None, WordB] prev s =
     (if lo \<le> length (takeWhile is_digit s) \<and> \<not> next_is_word (dropWhile is_digit s)
      then Some (length (takeWhile is_digit s)) else None)"
proof (induction s arbitrary: lo prev)
  case Nil
  then show ?case by (auto simp: at_boundary_def next_is_word_def)
next
  case (Cons x xs)
  show ?case
  proof (cases "is_digit x")
    case False
    with Cons.prems show ?thesis
      by (auto simp: at_boundary_def next_is_word_def)
  next
    case True
    then have w: "is_word x" by (rule digit_is_word)
    have h: "lo - 1 = 0 \<longrightarrow> is_word_opt (Some x)" using w by (simp add: is_word_opt_def)
    note ih = Cons.IH[OF h]
    have skip: "lo = 0 \<Longrightarrow> match_here [WordB] prev (x # xs) = None"
      using Cons.prems w by (simp add: at_boundary_def)
    show ?thesis
    proof (cases "lo - 1 \<le> length (takeWhile is_digit xs) \<and> \<not> next_is_word (dropWhile is_digit xs)")
      case T: True
      with ih have "match_here [Rep Digit (lo - 1) None, WordB] (Some x) xs
          = Some (length (takeWhile is_digit xs))" by simp
      with True T show ?thesis by auto
    next
      case F: False
      with ih have i: "match_here [Rep Digit (lo - 1) None, WordB] (Some x) xs = None" by simp
      have "match_here [Rep Digit lo None, WordB] prev (x # xs) = None"
        using True i skip by (cases "lo = 0") simp_all
      moreover have "\<not> (lo \<le> length (takeWhile is_digit (x # xs))
          \<and> \<not> next_is_word (dropWhile is_digit (x # xs)))"
        using F True by auto
      ultimately show ?thesis by simp
    qed
  qed
qed

lemma catch_all_match:
  "match_here catch_all prev s =
     (if delimited_run_at prev s then Some (length (takeWhile is_digit s)) else None)"
proof (cases "8 \<le> length (takeWhile is_digit s)")
  case False
  then show ?thesis
    by (simp add: catch_all_def rep_wordb delimited_run_at_def)
next
  case True
  then obtain x xs where s: "s = x # xs" by (cases s) auto
  with True have "is_digit x" by (auto split: if_splits)
  then have "is_word x" by (rule digit_is_word)
  then have "at_boundary prev s = (\<not> is_word_opt prev)" by (simp add: s at_boundary_def)
  then show ?thesis
    by (simp add: catch_all_def rep_wordb delimited_run_at_def)
qed

lemma not_delimited_non_digit: "\<not> is_digit c \<Longrightarrow> \<not> delimited_run_at prev (c # cs)"
  by (simp add: delimited_run_at_def)

lemma not_delimited_Nil: "\<not> delimited_run_at prev []"
  by (simp add: delimited_run_at_def)

lemma not_delimited_after_word: "is_word_opt prev \<Longrightarrow> \<not> delimited_run_at prev s"
  by (simp add: delimited_run_at_def)

lemma sub_catch_Nil: "sub_from catch_all prev [] = []"
  by (simp add: catch_all_match not_delimited_Nil)

lemma sub_catch_keep:
  "\<not> delimited_run_at prev (c # cs) \<Longrightarrow>
     sub_from catch_all prev (c # cs) = c # sub_from catch_all (Some c) cs"
  by (simp add: catch_all_match)

declare sub_from.simps [simp del]

lemma sub_catch_id:
  "\<not> has_delimited_run prev s \<Longrightarrow> sub_from catch_all prev s = s"
proof (induction s arbitrary: prev)
  case Nil
  show ?case by (rule sub_catch_Nil)
next
  case (Cons c cs)
  from Cons.prems have 1: "\<not> delimited_run_at prev (c # cs)"
    and 2: "\<not> has_delimited_run (Some c) cs" by simp_all
  from sub_catch_keep[OF 1] Cons.IH[OF 2] show ?case by simp
qed

lemma sub_catch_profile:
  "is_word_opt prev \<Longrightarrow>
     takeWhile is_digit (sub_from catch_all prev s) = takeWhile is_digit s
     \<and> next_is_word (dropWhile is_digit (sub_from catch_all prev s))
         = next_is_word (dropWhile is_digit s)"
proof (induction s arbitrary: prev)
  case Nil
  show ?case by (simp add: sub_catch_Nil)
next
  case (Cons c cs)
  note k = sub_catch_keep[OF not_delimited_after_word[OF Cons.prems], of c cs]
  show ?case
  proof (cases "is_digit c")
    case True
    then have "is_word_opt (Some c)" by (simp add: is_word_opt_def digit_is_word)
    from Cons.IH[OF this] True show ?thesis by (simp add: k)
  next
    case False
    then show ?thesis by (simp add: k next_is_word_def)
  qed
qed

lemma delimited_hidden: "has_delimited_run prev (hidden @ t) = has_delimited_run (Some CHR '']'') t"
  by (simp add: hidden_def delimited_run_at_def is_digit_def code_def)

lemma delimited_any_prev:
  assumes "\<not> next_is_word rest"
  shows "has_delimited_run p1 (sub_from catch_all q rest) = has_delimited_run p2 (sub_from catch_all q rest)"
proof (cases rest)
  case Nil
  then show ?thesis by (simp add: sub_catch_Nil)
next
  case (Cons x xs)
  with assms have "\<not> is_word x" by (simp add: next_is_word_def)
  with digit_is_word[of x] have nd: "\<not> is_digit x" by blast
  from sub_catch_keep[OF not_delimited_non_digit[OF nd], of q xs] nd
  show ?thesis by (simp add: Cons not_delimited_non_digit)
qed

lemma sub_catch_no_run:
  "p = catch_all \<Longrightarrow> \<not> has_delimited_run prev (sub_from p prev s)"
proof (induction p prev s rule: sub_from.induct)
  case (1 p prev)
  then show ?case by (simp add: sub_catch_Nil)
next
  case (2 p prev c cs)
  note p = "2.prems"
  show ?case
  proof (cases "delimited_run_at prev (c # cs)")
    case False
    then have m: "match_here p prev (c # cs) = None" by (simp add: p catch_all_match)
    let ?t = "sub_from p (Some c) cs"
    from "2.IH"(1)[OF m p] have ih: "\<not> has_delimited_run (Some c) ?t" .
    have "delimited_run_at prev (c # ?t) = delimited_run_at prev (c # cs)"
    proof (cases "is_digit c")
      case True
      then have "is_word_opt (Some c)" by (simp add: is_word_opt_def digit_is_word)
      from sub_catch_profile[OF this, of cs] True show ?thesis
        by (simp add: delimited_run_at_def p)
    next
      case F: False
      then show ?thesis by (simp add: not_delimited_non_digit)
    qed
    with False ih have "\<not> has_delimited_run prev (c # ?t)" by simp
    then show ?thesis using m by (simp add: sub_from.simps)
  next
    case True
    define n where "n = length (takeWhile is_digit cs)"
    from True have "is_digit c" using not_delimited_non_digit by blast
    then have len: "length (takeWhile is_digit (c # cs)) = Suc n"
      and dw: "dropWhile is_digit (c # cs) = drop n cs"
      by (simp_all add: n_def dropWhile_eq_drop)
    from True have m: "match_here p prev (c # cs) = Some (Suc n)"
      by (simp add: p catch_all_match len del: takeWhile.simps)
    let ?t = "sub_from p (Some ((c # cs) ! n)) (drop n cs)"
    from "2.IH"(3)[OF m refl p] have ih: "\<not> has_delimited_run (Some ((c # cs) ! n)) ?t" .
    from True have "\<not> next_is_word (drop n cs)"
      by (simp add: delimited_run_at_def dw del: dropWhile.simps takeWhile.simps)
    from delimited_any_prev[OF this, of "Some CHR '']''" "Some ((c # cs) ! n)" "Some ((c # cs) ! n)"] ih
    have "\<not> has_delimited_run (Some CHR '']'') ?t" by (simp add: p)
    then have "\<not> has_delimited_run prev (hidden @ ?t)" by (simp add: delimited_hidden)
    then show ?thesis using m by (simp add: sub_from.simps)
  qed
qed

lemma phone_patterns_ok: "p \<in> set phone_patterns \<Longrightarrow> pat_ok p"
  by (auto simp: phone_patterns_def pat_ok_def hidden_def)

lemma phone_patterns_need_digit: "p \<in> set phone_patterns \<Longrightarrow> needs_digit p"
  by (auto simp: phone_patterns_def)

lemma masks_re_sub: "masks t (re_sub p t)"
  unfolding re_sub_def by (rule masks_sub)

lemma fold_no_occurs:
  "(\<forall>p\<in>set ps. pat_ok p) \<Longrightarrow> (\<forall>q\<in>set qs. pat_ok q \<and> \<not> occurs q t) \<Longrightarrow>
     \<forall>q\<in>set qs \<union> set ps. \<not> occurs q (fold re_sub ps t)"
proof (induction ps arbitrary: qs t)
  case Nil
  then show ?case by simp
next
  case (Cons p ps)
  from Cons.prems(1) have ok: "pat_ok p" and oks: "\<forall>p\<in>set ps. pat_ok p" by simp_all
  have "\<forall>q\<in>set (p # qs). pat_ok q \<and> \<not> occurs q (re_sub p t)"
  proof
    fix q assume "q \<in> set (p # qs)"
    then consider "q = p" | "q \<in> set qs" by auto
    then show "pat_ok q \<and> \<not> occurs q (re_sub p t)"
    proof cases
      case 1
      with ok sub_no_occurs[OF ok, of None t] show ?thesis by (simp add: re_sub_def)
    next
      case 2
      with Cons.prems(2) have q: "pat_ok q" "\<not> occurs q t" by auto
      from occurs_masks[OF q(1) masks_re_sub[of t p]] q show ?thesis by blast
    qed
  qed
  from Cons.IH[OF oks this] show ?case by auto
qed

lemma fold_id:
  "(\<forall>p\<in>set ps. wordb_free p \<and> \<not> occurs p t) \<Longrightarrow> fold re_sub ps t = t"
proof (induction ps)
  case Nil
  show ?case by simp
next
  case (Cons p ps)
  from Cons.prems have "re_sub p t = t" by (simp add: re_sub_def sub_id)
  with Cons show ?case by simp
qed

lemma not_occurs_Nil: "pat_ok p \<Longrightarrow> \<not> occurs p []"
proof
  assume ok: "pat_ok p" and "occurs p []"
  then have "accepts p []" unfolding occurs_def by auto
  with occurs_plain(2)[OF ok] show False by blast
qed

lemma mask_no_occurs:
  assumes "p \<in> set phone_patterns"
  shows "\<not> occurs p (mask_phone_numbers x)"
proof (cases "x = []")
  case True
  with not_occurs_Nil[OF phone_patterns_ok[OF assms]] show ?thesis
    by (simp add: mask_phone_numbers_def)
next
  case False
  let ?t = "fold re_sub phone_patterns x"
  from fold_no_occurs[of phone_patterns "[]" x] phone_patterns_ok assms
  have "\<not> occurs p ?t" by auto
  with occurs_masks[OF phone_patterns_ok[OF assms] masks_re_sub[of ?t catch_all]]
  have "\<not> occurs p (re_sub catch_all ?t)" by blast
  with False show ?thesis by (simp add: mask_phone_numbers_def)
qed

lemma mask_no_run: "\<not> has_delimited_run None (mask_phone_numbers x)"
proof (cases "x = []")
  case True
  then show ?thesis by (simp add: mask_phone_numbers_def)
next
  case False
  with sub_catch_no_run[OF refl, of None "fold re_sub phone_patterns x"]
  show ?thesis by (simp add: mask_phone_numbers_def re_sub_def)
qed

lemma mask_fixed:
  assumes "\<And>p. p \<in> set phone_patterns \<Longrightarrow> \<not> occurs p t"
    and "\<not> has_delimited_run None t"
  shows "mask_phone_numbers t = t"
proof -
  have "fold re_sub phone_patterns t = t"
    by (rule fold_id) (use assms(1) phone_patterns_ok in \<open>auto simp: pat_ok_def\<close>)
  moreover have "re_sub catch_all t = t"
    unfolding re_sub_def by (rule sub_catch_id[OF assms(2)])
  ultimately show ?thesis by (simp add: mask_phone_numbers_def)
qed

lemma no_digit_no_run: "\<forall>c\<in>set s. \<not> is_digit c \<Longrightarrow> \<not> has_delimited_run prev s"
  by (induction s arbitrary: prev) (simp_all add: not_delimited_non_digit)

lemma mask_no_digit:
  assumes "\<forall>c\<in>set s. \<not> is_digit c"
  shows "mask_phone_numbers s = s"
proof (rule mask_fixed)
  fix p assume p: "p \<in> set phone_patterns"
  show "\<not> occurs p s"
  proof
    assume "occurs p s"
    then obtain u w v where s: "s = u @ w @ v" and a: "accepts p w" unfolding occurs_def by blast
    from accepts_digit[OF phone_patterns_need_digit[OF p] a] obtain x where
      "x \<in> set w" "is_digit x" by blast
    with s assms show False by auto
  qed
next
  show "\<not> has_delimited_run None s" by (rule no_digit_no_run[OF assms])
qed

text \<open>
  C5. Redaction is idempotent: redacting a redacted text changes nothing. The text after
  one pass has no occurrence of a pattern of \<open>phone_patterns\<close> and no run that the
  catch-all rule matches, so every substitution of the second pass finds no match.
\<close>

theorem redaction_idempotent:
  "mask_phone_numbers (mask_phone_numbers x) = mask_phone_numbers x"
proof (rule mask_fixed)
  fix p assume "p \<in> set phone_patterns"
  then show "\<not> occurs p (mask_phone_numbers x)" by (rule mask_no_occurs)
next
  show "\<not> has_delimited_run None (mask_phone_numbers x)" by (rule mask_no_run)
qed

lemma demo_number_masked: "mask_phone_numbers ''call me at 9876543210'' = ''call me at [hidden]''"
  by code_simp

theorem redaction_idempotent_witness:
  "mask_phone_numbers (mask_phone_numbers ''call me at 9876543210'') = ''call me at [hidden]''"
  using redaction_idempotent[of "''call me at 9876543210''"] by (simp add: demo_number_masked)

text \<open>
  C6, the claim as stated fails: the catch-all rule is anchored by \<open>\\b\<close> on both sides,
  and no other pattern matches fewer than ten digits, so a run of eight digits that
  touches a letter survives.
\<close>

theorem run_of_eight_survives:
  "mask_phone_numbers ''a12345678'' = ''a12345678''
   \<and> has_digit_run 8 (mask_phone_numbers ''a12345678'')"
  by code_simp

lemma digit_run_split:
  "0 < k \<Longrightarrow> has_digit_run k t \<Longrightarrow> \<exists>u v. t = u @ v \<and> k \<le> length (takeWhile is_digit v)"
proof (induction t)
  case Nil
  then show ?case by simp
next
  case (Cons c cs)
  show ?case
  proof (cases "k \<le> length (takeWhile is_digit (c # cs))")
    case True
    then have "c # cs = [] @ (c # cs) \<and> k \<le> length (takeWhile is_digit (c # cs))" by simp
    then show ?thesis by blast
  next
    case False
    with Cons.prems(2) have "has_digit_run k cs" by simp
    from Cons.IH[OF Cons.prems(1) this] obtain u v where "cs = u @ v"
      "k \<le> length (takeWhile is_digit v)" by blast
    then have "c # cs = (c # u) @ v \<and> k \<le> length (takeWhile is_digit v)" by simp
    then show ?thesis by blast
  qed
qed

lemma digit_run_occurs:
  assumes "has_digit_run 10 t"
  shows "occurs [AtLeast 10 Digit] t"
proof -
  from digit_run_split[OF _ assms] obtain u v where t: "t = u @ v"
    and l: "10 \<le> length (takeWhile is_digit v)" by auto
  let ?w = "takeWhile is_digit v"
  have "length ?w \<in> {10..length ?w}" using l by simp
  moreover have "list_all (in_class Digit) (take (length ?w) ?w)"
    by (auto simp: list_all_iff dest: set_takeWhileD)
  moreover have "accepts [] (drop (length ?w) ?w)" by simp
  ultimately have "accepts [AtLeast 10 Digit] ?w" unfolding accepts.simps by force
  moreover have "t = u @ ?w @ dropWhile is_digit v" by (simp add: t)
  ultimately show ?thesis unfolding occurs_def by blast
qed

text \<open>
  C6, amended. The redacted text has no run of eight or more contiguous digits that is
  delimited on both sides by the end of the text or a non-word character, and no run
  of ten or more digits at all; the redaction of \<open>call me at 9876543210\<close> has no run of
  eight digits.
\<close>

theorem no_delimited_run:
  "\<not> has_delimited_run None (mask_phone_numbers x)
   \<and> \<not> has_digit_run 10 (mask_phone_numbers x)
   \<and> \<not> has_digit_run 8 (mask_phone_numbers ''call me at 9876543210'')"
proof (intro conjI)
  show "\<not> has_delimited_run None (mask_phone_numbers x)" by (rule mask_no_run)
  have "[AtLeast 10 Digit] \<in> set phone_patterns" by (simp add: phone_patterns_def)
  from mask_no_occurs[OF this, of x] digit_run_occurs
  show "\<not> has_digit_run 10 (mask_phone_numbers x)" by blast
  show "\<not> has_digit_run 8 (mask_phone_numbers ''call me at 9876543210'')"
    unfolding demo_number_masked by code_simp
qed

lemma demo_tel_masked: "mask_phone_numbers ''tel 12345678 x'' = ''tel [hidden] x''"
  by code_simp

theorem no_delimited_run_witness:
  "\<not> has_delimited_run None ''tel [hidden] x''
   \<and> \<not> has_digit_run 10 ''tel [hidden] x''
   \<and> has_delimited_run None ''tel 12345678 x''"
proof -
  have "has_delimited_run None ''tel 12345678 x''" by code_simp
  with no_delimited_run[of "''tel 12345678 x''"] show ?thesis
    by (simp only: demo_tel_masked) simp
qed

subsection \<open>The relay command without content\<close>

text \<open>
  C9, the claim as stated fails: \<open>process_message\<close> calls
  \<open>get_or_create_user_state\<close> before it looks at the text, and that sets the caller's
  \<open>last_activity\<close>. Alice's timestamp is 10 before her bare \<open>#r\<close> at time 1000 and
  1000 after it.
\<close>

theorem usage_updates_profile:
  "fst (process_message demo_paired ''alice'' ''#r'' None demo_env) = ''Usage: #R your message here''
   \<and> map_option last_activity (map_of (user_states demo_paired) ''alice'') = Some 10
   \<and> map_option last_activity
        (map_of (user_states (snd (process_message demo_paired ''alice'' ''#r'' None demo_env))) ''alice'')
       = Some 1000"
  by code_simp

lemma strip_chars: "c \<in> set s \<Longrightarrow> is_space c \<or> c \<in> set (strip s)"
proof -
  assume c: "c \<in> set s"
  let ?d = "dropWhile is_space s"
  have "set s = set (takeWhile is_space s) \<union> set ?d"
    by (metis set_append takeWhile_dropWhile_id)
  moreover have "set ?d = set (takeWhile is_space (rev ?d)) \<union> set (dropWhile is_space (rev ?d))"
    by (metis set_append set_rev takeWhile_dropWhile_id)
  moreover have "set (strip s) = set (dropWhile is_space (rev ?d))" by (simp add: strip_def)
  ultimately have "c \<in> set (takeWhile is_space s) \<or> c \<in> set (takeWhile is_space (rev ?d))
      \<or> c \<in> set (strip s)" using c by blast
  then show ?thesis by (auto dest: set_takeWhileD)
qed

lemma space_not_digit: "is_space c \<Longrightarrow> \<not> is_digit c"
  by (auto simp: is_space_def is_digit_def)

lemma lower_digit: "is_digit c \<Longrightarrow> lower_char c = c"
  by (simp add: is_digit_def lower_char_def Let_def)

lemma bare_relay_no_digit:
  assumes "lower (strip m) = ''#r''"
  shows "\<forall>c\<in>set m. \<not> is_digit c"
proof
  fix c assume "c \<in> set m"
  from strip_chars[OF this] show "\<not> is_digit c"
  proof
    assume "is_space c"
    then show ?thesis by (rule space_not_digit)
  next
    assume "c \<in> set (strip m)"
    then have "lower_char c \<in> set (lower (strip m))" by (simp add: lower_def)
    then have l: "lower_char c = CHR ''#'' \<or> lower_char c = CHR ''r''" by (simp add: assms)
    show ?thesis
    proof
      assume d: "is_digit c"
      with l lower_digit[OF d] have "c = CHR ''#'' \<or> c = CHR ''r''" by simp
      with d show False by (auto simp: is_digit_def code_def)
    qed
  qed
qed

text \<open>
  C9, amended. For a request that is \<open>#r\<close> or \<open>#R\<close> alone, with any white space around
  it, the reply is the usage message, and the store changes only by the upsert of the
  caller's profile: the profile is created with its defaults when absent, and its
  \<open>last_activity\<close> is set to the time of the request. The waiting queue, the pair map,
  both mailboxes, the profiles of all other users and the other fields of the caller's
  profile are unchanged.
\<close>

theorem usage_reply_frame:
  assumes "lower (strip m0) = ''#r''"
  shows "process_message s0 uid m0 nick e =
           (''Usage: #R your message here'',
            s0\<lparr>user_states :=
                 AList.update uid
                   ((case map_of (user_states s0) uid of
                       None \<Rightarrow> new_user uid nick (t_entry e)
                     | Some st \<Rightarrow> st)\<lparr>last_activity := t_entry e\<rparr>)
                   (user_states s0)\<rparr>)"
proof -
  define me where "me = (case map_of (user_states s0) uid of
                       None \<Rightarrow> new_user uid nick (t_entry e)
                     | Some st \<Rightarrow> st)\<lparr>last_activity := t_entry e\<rparr>"
  define s where "s = s0\<lparr>user_states := AList.update uid me (user_states s0)\<rparr>"
  have g: "get_or_create_user_state s0 uid nick (t_entry e) = (me, s)"
    by (simp add: get_or_create_user_state_def Let_def me_def s_def)
  have t: "m0 = (if phone_masking_enabled me then mask_phone_numbers m0 else m0)"
    using mask_no_digit[OF bare_relay_no_digit[OF assms]] by simp
  have sw: "startswith (lower (strip m0)) ''#r''" by (simp add: assms startswith_def)
  have "length (lower (strip m0)) = 2" by (simp add: assms)
  then have "length (strip m0) = 2" by (simp add: lower_def)
  then have rc: "relay_content m0 = []" by (simp add: relay_content_def)
  from process_message_relay[OF g t sw] rc
  have "process_message s0 uid m0 nick e = (usage_reply, s)" by simp
  then show ?thesis by (simp add: usage_reply_def s_def me_def)
qed

lemma demo_bare_relay: "lower (strip ''  #R '') = ''#r''"
  by code_simp

theorem usage_reply_frame_witness:
  "process_message demo_paired ''alice'' ''  #R '' None demo_env =
     (''Usage: #R your message here'',
      demo_paired\<lparr>user_states :=
         AList.update ''alice'' (demo_alice\<lparr>last_activity := 1000\<rparr>) (user_states demo_paired)\<rparr>)"
  using usage_reply_frame[OF demo_bare_relay, of demo_paired "''alice''" None demo_env]
  by (simp add: demo_paired_def demo_env_def)

end
